theory Spec2Isabelle
  imports Main "HOL-Library.FSet" "HOL-Library.List_Lexorder" "HOL-Library.Char_ord"
begin

section \<open>Texts and character classes\<close>

text \<open>
  A Python \<open>str\<close> is modelled as a \<open>string\<close>: a list of 8-bit characters, each standing
  for the code point of the same number (so the model covers texts whose code points are
  below 256).  The classes are those of Python 3's \<open>re\<close> on \<open>str\<close> patterns: \<open>\s\<close> is
  \<open>str.isspace\<close>, \<open>\w\<close> is \<open>str.isalnum\<close> or the underscore.
\<close>

definition is_space :: "char \<Rightarrow> bool" where
  "is_space c = (let n = (of_char c :: nat) in
     (9 \<le> n \<and> n \<le> 13) \<or> (28 \<le> n \<and> n \<le> 32) \<or> n = 133 \<or> n = 160)"

definition is_word :: "char \<Rightarrow> bool" where
  "is_word c = (let n = (of_char c :: nat) in
     (48 \<le> n \<and> n \<le> 57) \<or> (65 \<le> n \<and> n \<le> 90) \<or> n = 95 \<or> (97 \<le> n \<and> n \<le> 122) \<or>
     n = 170 \<or> n = 178 \<or> n = 179 \<or> n = 181 \<or> n = 185 \<or> n = 186 \<or>
     (188 \<le> n \<and> n \<le> 190) \<or> (192 \<le> n \<and> n \<le> 214) \<or> (216 \<le> n \<and> n \<le> 246) \<or>
     248 \<le> n)"

text \<open>The explicit ASCII classes \<open>[a-zA-Z_]\<close> and \<open>[a-zA-Z0-9_]\<close> of \<open>find_usages\<close>.\<close>

definition is_ident_start :: "char \<Rightarrow> bool" where
  "is_ident_start c = (let n = (of_char c :: nat) in
     (97 \<le> n \<and> n \<le> 122) \<or> (65 \<le> n \<and> n \<le> 90) \<or> n = 95)"

definition is_ident_char :: "char \<Rightarrow> bool" where
  "is_ident_char c = (let n = (of_char c :: nat) in
     (97 \<le> n \<and> n \<le> 122) \<or> (65 \<le> n \<and> n \<le> 90) \<or> (48 \<le> n \<and> n \<le> 57) \<or> n = 95)"

text \<open>The line boundaries of \<open>str.splitlines\<close> (below code point 256).\<close>

definition is_linebreak :: "char \<Rightarrow> bool" where
  "is_linebreak c = (let n = (of_char c :: nat) in
     (10 \<le> n \<and> n \<le> 13) \<or> (28 \<le> n \<and> n \<le> 30) \<or> n = 133)"

section \<open>The regular expressions of Python's \<open>re\<close>, as far as the program uses them\<close>

text \<open>
  \<open>Cls P\<close> is one character of a class, \<open>Star\<close> the greedy \<open>*\<close>, \<open>Lazy\<close> the
  non-greedy \<open>*?\<close>, \<open>Grp\<close> the capture group the program reads (\<open>group(1)\<close>),
  \<open>Bol\<close> and \<open>Eol\<close> are \<open>^\<close> and \<open>$\<close> under \<open>re.MULTILINE\<close>, \<open>WordB\<close> is \<open>\b\<close>.
\<close>

datatype regex =
    Eps
  | Cls "char \<Rightarrow> bool"
  | Seq regex regex
  | Alt regex regex
  | Star regex
  | Lazy regex
  | Grp regex
  | Bol
  | Eol
  | WordB

text \<open>
  A matcher state: the character before the current position (\<open>None\<close> at the start of
  the text), the text from the current position on, and the text of the capture group.
\<close>

type_synonym mstate = "char option \<times> string \<times> string option"

definition at_word :: "char option \<Rightarrow> bool" where
  "at_word p = (case p of None \<Rightarrow> False | Some c \<Rightarrow> is_word c)"

text \<open>
  \<open>ends r st\<close> lists every way in which \<open>r\<close> matches at \<open>st\<close>, as the state after
  the match, in the order in which the backtracking matcher of \<open>re\<close> tries them: the
  match \<open>re\<close> reports is the first of the list.  An iteration of \<open>*\<close> that consumes
  nothing is not repeated.
\<close>

function ends :: "regex \<Rightarrow> mstate \<Rightarrow> mstate list" where
  "ends Eps st = [st]"
| "ends (Cls P) (p, s, g) =
     (case s of [] \<Rightarrow> [] | c # cs \<Rightarrow> if P c then [(Some c, cs, g)] else [])"
| "ends (Seq a b) st = concat (map (ends b) (ends a st))"
| "ends (Alt a b) st = ends a st @ ends b st"
| "ends (Star a) st =
     concat (map (\<lambda>st'. if length (fst (snd st')) < length (fst (snd st))
                         then ends (Star a) st' else [])
                 (ends a st)) @ [st]"
| "ends (Lazy a) st =
     st # concat (map (\<lambda>st'. if length (fst (snd st')) < length (fst (snd st))
                              then ends (Lazy a) st' else [])
                      (ends a st))"
| "ends (Grp a) (p, s, g) =
     map (\<lambda>(p', s', g'). (p', s', Some (take (length s - length s') s))) (ends a (p, s, g))"
| "ends Bol (p, s, g) = (if p = None \<or> p = Some (CHR 0x0A) then [(p, s, g)] else [])"
| "ends Eol (p, s, g) = (if s = [] \<or> hd s = CHR 0x0A then [(p, s, g)] else [])"
| "ends WordB (p, s, g) =
     (if at_word p \<noteq> at_word (case s of [] \<Rightarrow> None | c # _ \<Rightarrow> Some c)
      then [(p, s, g)] else [])"
  by pat_completeness auto
termination
  by (relation "measures [\<lambda>(r, st). size r, \<lambda>(r, st). length (fst (snd st))]") auto

declare ends.simps [simp del]

definition Chr :: "char \<Rightarrow> regex" where
  "Chr c = Cls (\<lambda>x. x = c)"

definition Plus :: "regex \<Rightarrow> regex" where
  "Plus r = Seq r (Star r)"

definition Opt :: "regex \<Rightarrow> regex" where
  "Opt r = Alt r Eps"

fun seqs :: "regex list \<Rightarrow> regex" where
  "seqs [] = Eps"
| "seqs [r] = r"
| "seqs (r # rs) = Seq r (seqs rs)"

definition lit :: "string \<Rightarrow> regex" where
  "lit s = seqs (map Chr s)"

text \<open>A match object: \<open>match.start()\<close>, \<open>match.group(0)\<close> and \<open>match.group(1)\<close>.\<close>

record rematch =
  start :: nat
  group0 :: string
  group1 :: "string option"

text \<open>
  \<open>pattern.finditer(s)\<close>: the non-overlapping matches from left to right.  At each
  position the first way of \<open>ends\<close> is the match; the search goes on at its end, or one
  character further where nothing matches.  (No pattern of the program matches the empty
  string; the branch for an empty match records it and moves on by one character.)
\<close>

function finditer_from :: "regex \<Rightarrow> char option \<Rightarrow> nat \<Rightarrow> string \<Rightarrow> rematch list" where
  "finditer_from r prev pos [] =
     (case ends r (prev, [], None) of
        [] \<Rightarrow> []
      | (p', s', g) # _ \<Rightarrow> [\<lparr>start = pos, group0 = [], group1 = g\<rparr>])"
| "finditer_from r prev pos (c # cs) =
     (case ends r (prev, c # cs, None) of
        [] \<Rightarrow> finditer_from r (Some c) (Suc pos) cs
      | (p', s', g) # _ \<Rightarrow>
          if length s' < length (c # cs)
          then \<lparr>start = pos, group0 = take (length (c # cs) - length s') (c # cs), group1 = g\<rparr>
               # finditer_from r p' (pos + (length (c # cs) - length s')) s'
          else \<lparr>start = pos, group0 = [], group1 = g\<rparr>
               # finditer_from r (Some c) (Suc pos) cs)"
  by pat_completeness auto
termination
  by (relation "measure (\<lambda>(r, prev, pos, s). length s)") auto

definition finditer :: "regex \<Rightarrow> string \<Rightarrow> rematch list" where
  "finditer r s = finditer_from r None 0 s"

text \<open>\<open>re.findall\<close> for a pattern with one group: the list of \<open>group(1)\<close>.\<close>

definition group1_text :: "rematch \<Rightarrow> string" where
  "group1_text m = (case group1 m of None \<Rightarrow> [] | Some g \<Rightarrow> g)"

definition findall :: "regex \<Rightarrow> string \<Rightarrow> string list" where
  "findall r s = map group1_text (finditer r s)"

text \<open>\<open>re.sub(pattern, repl, s)\<close> with a function \<open>repl\<close> of the matched text.\<close>

function sub_from :: "regex \<Rightarrow> (string \<Rightarrow> string) \<Rightarrow> char option \<Rightarrow> string \<Rightarrow> string" where
  "sub_from r repl prev [] =
     (case ends r (prev, [], None) of [] \<Rightarrow> [] | _ # _ \<Rightarrow> repl [])"
| "sub_from r repl prev (c # cs) =
     (case ends r (prev, c # cs, None) of
        [] \<Rightarrow> c # sub_from r repl (Some c) cs
      | (p', s', g) # _ \<Rightarrow>
          if length s' < length (c # cs)
          then repl (take (length (c # cs) - length s') (c # cs)) @ sub_from r repl p' s'
          else repl [] @ c # sub_from r repl (Some c) cs)"
  by pat_completeness auto
termination
  by (relation "measure (\<lambda>(r, repl, prev, s). length s)") auto

definition re_sub :: "regex \<Rightarrow> (string \<Rightarrow> string) \<Rightarrow> string \<Rightarrow> string" where
  "re_sub r repl s = sub_from r repl None s"

section \<open>String methods\<close>

fun splitlines_from :: "string \<Rightarrow> string \<Rightarrow> string list" where
  "splitlines_from cur [] = (if cur = [] then [] else [rev cur])"
| "splitlines_from cur (c # cs) =
     (if c = CHR 0x0D \<and> cs \<noteq> [] \<and> hd cs = CHR 0x0A then rev cur # splitlines_from [] (tl cs)
      else if is_linebreak c then rev cur # splitlines_from [] cs
      else splitlines_from (c # cur) cs)"

definition splitlines :: "string \<Rightarrow> string list" where
  "splitlines s = splitlines_from [] s"

definition rstrip :: "string \<Rightarrow> string" where
  "rstrip s = rev (dropWhile is_space (rev s))"

definition strip :: "string \<Rightarrow> string" where
  "strip s = dropWhile is_space (rstrip s)"

definition startswith :: "string \<Rightarrow> string \<Rightarrow> bool" where
  "startswith s pre = (take (length pre) s = pre)"

fun join :: "string \<Rightarrow> string list \<Rightarrow> string" where
  "join sep [] = []"
| "join sep [x] = x"
| "join sep (x # xs) = x @ sep @ join sep xs"

text \<open>\<open>s[i:j]\<close> for \<open>0 \<le> i \<le> j\<close>.\<close>

definition slice :: "string \<Rightarrow> nat \<Rightarrow> nat \<Rightarrow> string" where
  "slice s i j = take (j - i) (drop i s)"

text \<open>\<open>d[k] = v\<close> on an insertion-ordered \<open>dict\<close>: a present key keeps its place.\<close>

fun dict_set :: "'k \<Rightarrow> 'v \<Rightarrow> ('k \<times> 'v) list \<Rightarrow> ('k \<times> 'v) list" where
  "dict_set k v [] = [(k, v)]"
| "dict_set k v ((k', v') # kvs) =
     (if k' = k then (k, v) # kvs else (k', v') # dict_set k v kvs)"

section \<open>Parsing engines\<close>

text \<open>\<^verbatim>\<open>^[\w\s\*]+\s+([\w]+)\s*\([^)]*\)\s*\{\<close>, \<open>re.MULTILINE\<close>\<close>

definition C_FUNC_DEF :: regex where
  "C_FUNC_DEF = seqs [Bol,
     Plus (Cls (\<lambda>c. is_word c \<or> is_space c \<or> c = CHR ''*'')),
     Plus (Cls is_space),
     Grp (Plus (Cls is_word)),
     Star (Cls is_space),
     Chr CHR ''('',
     Star (Cls (\<lambda>c. c \<noteq> CHR '')'')),
     Chr CHR '')'',
     Star (Cls is_space),
     Chr CHR ''{'']"

text \<open>\<^verbatim>\<open>^(typedef\s+)?(struct|enum|union)\s*[\w]*\s*\{[\s\S]*?\}\s*[\w]*\s*;\<close>, \<open>re.MULTILINE\<close>
  (the program reads \<open>group(0)\<close> only, so the two groups only bracket)\<close>

definition C_TYPE_DEF :: regex where
  "C_TYPE_DEF = seqs [Bol,
     Opt (Seq (lit ''typedef'') (Plus (Cls is_space))),
     Alt (lit ''struct'') (Alt (lit ''enum'') (lit ''union'')),
     Star (Cls is_space),
     Star (Cls is_word),
     Star (Cls is_space),
     Chr CHR ''{'',
     Lazy (Cls (\<lambda>c. is_space c \<or> \<not> is_space c)),
     Chr CHR ''}'',
     Star (Cls is_space),
     Star (Cls is_word),
     Star (Cls is_space),
     Chr CHR '';'']"

text \<open>\<^verbatim>\<open>^typedef\s+[\w\s\*]+\s+[\w]+\s*;\<close>, \<open>re.MULTILINE\<close>\<close>

definition C_SIMPLE_TYPEDEF :: regex where
  "C_SIMPLE_TYPEDEF = seqs [Bol,
     lit ''typedef'',
     Plus (Cls is_space),
     Plus (Cls (\<lambda>c. is_word c \<or> is_space c \<or> c = CHR ''*'')),
     Plus (Cls is_space),
     Plus (Cls is_word),
     Star (Cls is_space),
     Chr CHR '';'']"

text \<open>
  \<open>strip_comments\<close>: the pattern
  \<^verbatim>\<open>//.*?$|/\*.*?\*/|\'(?:\\.|[^\\\'])*\'|"(?:\\.|[^\\"])*"\<close>
  under \<open>re.DOTALL | re.MULTILINE\<close> (so \<open>.\<close> is any character), and the replacer.
\<close>

definition quoted :: "char \<Rightarrow> regex" where
  "quoted q = seqs [Chr q,
     Star (Alt (Seq (Chr CHR 0x5C) (Cls (\<lambda>c. True)))
               (Cls (\<lambda>c. c \<noteq> CHR 0x5C \<and> c \<noteq> q))),
     Chr q]"

definition comment_pattern :: regex where
  "comment_pattern =
     Alt (seqs [lit ''//'', Lazy (Cls (\<lambda>c. True)), Eol])
    (Alt (seqs [lit ''/*'', Lazy (Cls (\<lambda>c. True)), lit ''*/''])
    (Alt (quoted CHR 0x27)
         (quoted CHR 0x22)))"

definition replacer :: "string \<Rightarrow> string" where
  "replacer s = (if startswith s ''/'' then '' '' else s)"

definition strip_comments :: "string \<Rightarrow> string" where
  "strip_comments code = re_sub comment_pattern replacer code"

text \<open>\<open>clean_whitespace\<close>: \<^verbatim>\<open>re.sub(r'\n\s*\n', '\n', code)\<close>, then the non-blank lines,
  right-stripped, joined by newlines.\<close>

definition blank_lines :: regex where
  "blank_lines = seqs [Chr CHR 0x0A, Star (Cls is_space), Chr CHR 0x0A]"

definition clean_whitespace :: "string \<Rightarrow> string" where
  "clean_whitespace code =
     (let code = re_sub blank_lines (\<lambda>_. [CHR 0x0A]) code
      in join [CHR 0x0A] (map rstrip (filter (\<lambda>line. strip line \<noteq> []) (splitlines code))))"

section \<open>\<open>CParser\<close>\<close>

record blocks =
  headers :: "string list"
  types :: "string list"
  functions_map :: "(string \<times> string) list"
  defines_list :: "string list"
  is_entry :: bool

text \<open>
  The brace-balance scan of \<open>get_blocks\<close>, \<open>for i in range(start_idx, len(content))\<close>:
  the first argument is \<open>content[i:]\<close>; the result is \<open>end_idx\<close>, with \<open>None\<close> for
  the \<open>-1\<close> that is left when the loop runs to the end of the text.
\<close>

fun brace_scan :: "string \<Rightarrow> int \<Rightarrow> nat \<Rightarrow> nat option" where
  "brace_scan [] brace_count i = None"
| "brace_scan (c # cs) brace_count i =
     (if c = CHR ''{'' then brace_scan cs (brace_count + 1) (Suc i)
      else if c = CHR ''}'' then
        (if brace_count - 1 = 0 then Some (Suc i)
         else brace_scan cs (brace_count - 1) (Suc i))
      else brace_scan cs brace_count (Suc i))"

text \<open>The body of the loop over the matches of \<open>C_FUNC_DEF\<close>, on the function map.\<close>

definition add_function :: "string \<Rightarrow> rematch \<Rightarrow> (string \<times> string) list \<Rightarrow> (string \<times> string) list" where
  "add_function content m fm =
     (let func_name = group1_text m; start_idx = start m
      in case brace_scan (drop start_idx content) 0 start_idx of
           None \<Rightarrow> fm
         | Some end_idx \<Rightarrow> dict_set func_name (slice content start_idx end_idx) fm)"

definition get_blocks :: "string \<Rightarrow> blocks" where
  "get_blocks raw =
     (let content = strip_comments raw;
          lines = map strip (splitlines content)
      in \<lparr>headers = filter (\<lambda>line. startswith line ''#include'') lines,
          types = map group0 (finditer C_TYPE_DEF content)
                  @ map group0 (finditer C_SIMPLE_TYPEDEF content),
          functions_map = fold (add_function content) (finditer C_FUNC_DEF content) [],
          defines_list = filter (\<lambda>line. startswith line ''#define'') lines,
          is_entry = False\<rparr>)"

text \<open>\<open>find_usages\<close>: \<^verbatim>\<open>set(re.findall(r'\b([a-zA-Z_][a-zA-Z0-9_]*)\b', content))\<close>\<close>

definition identifier_pattern :: regex where
  "identifier_pattern = seqs [WordB, Grp (Seq (Cls is_ident_start) (Star (Cls is_ident_char))), WordB]"

definition find_usages :: "string \<Rightarrow> string fset" where
  "find_usages content = fset_of_list (findall identifier_pattern content)"

section \<open>The environment: \<open>pathlib\<close> and the file system\<close>

text \<open>
  Paths are values of a type \<open>'p\<close> (ordered, as \<open>Path\<close> is).  What \<open>pathlib\<close> and the
  file system do is a record of functions: \<open>Path(s)\<close>, \<open>p.parent\<close>, \<open>p / s\<close>,
  \<open>p.stem\<close>, \<open>p.resolve()\<close> (\<open>None\<close> where it raises), reading the text of a file
  (\<open>None\<close> where \<open>open\<close> raises) and the name written in the file marker (the path
  relative to the working directory, or the path itself).
\<close>

record 'p env =
  path_of :: "string \<Rightarrow> 'p"
  path_parent :: "'p \<Rightarrow> 'p"
  path_join :: "'p \<Rightarrow> string \<Rightarrow> 'p"
  path_stem :: "'p \<Rightarrow> string"
  path_resolve :: "'p \<Rightarrow> 'p option"
  read_file :: "'p \<Rightarrow> string option"
  display :: "'p \<Rightarrow> string"

text \<open>\<open>resolve_path\<close>: the six candidates, and the loop over them with its \<open>try\<close>.\<close>

definition candidates :: "'p env \<Rightarrow> 'p \<Rightarrow> string \<Rightarrow> 'p list" where
  "candidates env base_file import_str =
     (let import_path = path_of env import_str;
          stem = path_stem env import_path
      in [path_join env (path_parent env base_file) import_str,
          path_join env (path_parent env base_file) (stem @ ''.c''),
          path_join env (path_parent env base_file) (stem @ ''.cpp''),
          path_join env (path_of env ''include'') import_str,
          path_join env (path_of env ''src'') import_str,
          path_join env (path_of env ''lib'') import_str])"

fun try_candidates :: "'p env \<Rightarrow> 'p list \<Rightarrow> 'p list \<Rightarrow> 'p option" where
  "try_candidates env [] all_files = None"
| "try_candidates env (c # cs) all_files =
     (case path_resolve env c of
        None \<Rightarrow> try_candidates env cs all_files
      | Some resolved \<Rightarrow>
          if resolved \<in> set all_files then Some resolved
          else try_candidates env cs all_files)"

definition resolve_path :: "'p env \<Rightarrow> 'p \<Rightarrow> string \<Rightarrow> 'p list \<Rightarrow> 'p option" where
  "resolve_path env base_file import_str all_files =
     try_candidates env (candidates env base_file import_str) all_files"

section \<open>\<open>main\<close>: dependency collection\<close>

text \<open>
  \<open>main\<close> is modelled from the point where the entry path, the depth and the index of the
  project (\<open>all_files\<close>, the keys of the dictionary) are known.  The only exception that
  the rest of \<open>main\<close> lets through is the one of \<open>open\<close>.  Besides the variables of
  \<open>main\<close>, the state records the files opened, in order.
\<close>

datatype error = OpenError

record 'p state =
  processed_files :: "('p \<times> blocks) list"
  used_symbols :: "string fset"
  queue :: "('p \<times> int) list"
  visited :: "'p set"
  opened :: "'p list"

text \<open>\<^verbatim>\<open>#include\s*[<"]([^>"]+)[>"]\<close>\<close>

definition include_pattern :: regex where
  "include_pattern = seqs [lit ''#include'',
     Star (Cls is_space),
     Cls (\<lambda>c. c = CHR ''<'' \<or> c = CHR 0x22),
     Grp (Plus (Cls (\<lambda>c. c \<noteq> CHR ''>'' \<and> c \<noteq> CHR 0x22))),
     Cls (\<lambda>c. c = CHR ''>'' \<or> c = CHR 0x22)]"

text \<open>The body of \<open>for inc in includes\<close>, on the queue.\<close>

definition enqueue :: "'p env \<Rightarrow> 'p list \<Rightarrow> 'p \<Rightarrow> int \<Rightarrow> 'p set \<Rightarrow> string \<Rightarrow> ('p \<times> int) list \<Rightarrow> ('p \<times> int) list" where
  "enqueue env all_files curr_path depth vis inc q =
     (case resolve_path env curr_path inc all_files of
        None \<Rightarrow> q
      | Some res \<Rightarrow> if res \<notin> vis then q @ [(res, depth + 1)] else q)"

text \<open>The body of the \<open>while queue\<close> loop for a file that is not skipped and was read.\<close>

definition visit :: "'p env \<Rightarrow> 'p list \<Rightarrow> 'p \<Rightarrow> 'p \<Rightarrow> int \<Rightarrow> string \<Rightarrow> 'p state \<Rightarrow> 'p state" where
  "visit env all_files entry_path curr_path depth raw_content st =
     (let vis = insert curr_path (visited st);
          blocks = get_blocks raw_content;
          processed = dict_set curr_path blocks (processed_files st);
          processed = (if curr_path = entry_path
                       then dict_set curr_path (blocks\<lparr>is_entry := True\<rparr>) processed
                       else processed);
          used = (if curr_path = entry_path
                  then used_symbols st |\<union>| find_usages raw_content
                  else used_symbols st);
          includes = findall include_pattern (strip_comments raw_content)
      in \<lparr>processed_files = processed,
          used_symbols = used,
          queue = fold (enqueue env all_files curr_path depth vis) includes (queue st),
          visited = vis,
          opened = opened st @ [curr_path]\<rparr>)"

function traverse :: "'p env \<Rightarrow> 'p list \<Rightarrow> 'p \<Rightarrow> int \<Rightarrow> 'p state \<Rightarrow> error + 'p state" where
  "traverse env all_files entry_path max_depth st =
     (case queue st of
        [] \<Rightarrow> Inr st
      | (curr_path, depth) # rest \<Rightarrow>
          if curr_path \<in> visited st \<or> depth > max_depth
          then traverse env all_files entry_path max_depth (st\<lparr>queue := rest\<rparr>)
          else (case read_file env curr_path of
                  None \<Rightarrow> Inl OpenError
                | Some raw_content \<Rightarrow>
                    traverse env all_files entry_path max_depth
                      (visit env all_files entry_path curr_path depth raw_content
                         (st\<lparr>queue := rest\<rparr>))))"
  by pat_completeness auto
termination
proof (relation "measures [\<lambda>(env, all_files, entry_path, max_depth, st).
                              card ((set all_files \<union> fst ` set (queue st)) - visited st),
                           \<lambda>(env, all_files, entry_path, max_depth, st). length (queue st)]",
       goal_cases)
  case 1
  show ?case by simp
next
  case (2 env all_files entry_path max_depth st x xs curr_path depth)
  have "card ((set all_files \<union> fst ` set xs) - visited st)
        \<le> card ((set all_files \<union> fst ` set (queue st)) - visited st)"
    using 2 by (intro card_mono) auto
  then show ?case using 2 by auto
next
  case (3 env all_files entry_path max_depth st x xs curr_path depth raw)
  have tc: "try_candidates env cs all_files = Some r \<Longrightarrow> r \<in> set all_files" for cs r
    by (induction cs) (auto split: option.splits if_splits)
  have enq: "fst ` set (fold (enqueue env all_files curr_path depth vis) incs q)
             \<subseteq> fst ` set q \<union> set all_files" for vis incs q
  proof (induction incs arbitrary: q)
    case Nil
    show ?case by simp
  next
    case (Cons i incs)
    have "fst ` set (enqueue env all_files curr_path depth vis i q) \<subseteq> fst ` set q \<union> set all_files"
      using tc by (auto simp: enqueue_def resolve_path_def split: option.splits)
    with Cons [of "enqueue env all_files curr_path depth vis i q"] show ?case
      by auto
  qed
  let ?st' = "visit env all_files entry_path curr_path depth raw (st\<lparr>queue := xs\<rparr>)"
  have q: "fst ` set (queue ?st') \<subseteq> fst ` set xs \<union> set all_files"
    using enq by (simp add: visit_def Let_def)
  have v: "visited ?st' = insert curr_path (visited st)"
    by (simp add: visit_def Let_def)
  have "curr_path \<notin> visited st" and "queue st = (curr_path, depth) # xs"
    using 3 by auto
  then have "(set all_files \<union> fst ` set (queue ?st')) - visited ?st'
             \<subset> (set all_files \<union> fst ` set (queue st)) - visited st"
    using q v by auto
  then have "card ((set all_files \<union> fst ` set (queue ?st')) - visited ?st')
             < card ((set all_files \<union> fst ` set (queue st)) - visited st)"
    by (intro psubset_card_mono) auto
  then show ?case by simp
qed

declare traverse.simps [simp del]

section \<open>\<open>main\<close>: iterative symbol resolution\<close>

text \<open>
  One pass of the \<open>while changed\<close> loop: for every function of every processed file whose
  name is in \<open>used_symbols\<close>, the identifiers of its body are added (\<open>absorb\<close> is the
  body of the inner loop; the set is updated while the pass runs).
\<close>

definition absorb :: "string \<times> string \<Rightarrow> string fset \<Rightarrow> string fset" where
  "absorb nb used =
     (case nb of (name, body) \<Rightarrow> if name |\<in>| used then used |\<union>| find_usages body else used)"

definition closure_pass :: "('p \<times> blocks) list \<Rightarrow> string fset \<Rightarrow> string fset" where
  "closure_pass processed used =
     fold (\<lambda>(path, blocks) used. fold absorb (functions_map blocks) used) processed used"

text \<open>The identifiers of all function bodies: what the loop can ever add.\<close>

definition all_bodies :: "('p \<times> blocks) list \<Rightarrow> string list" where
  "all_bodies processed = concat (map (\<lambda>(path, blocks). map snd (functions_map blocks)) processed)"

definition body_symbols :: "('p \<times> blocks) list \<Rightarrow> string fset" where
  "body_symbols processed = fset_of_list (concat (map (findall identifier_pattern) (all_bodies processed)))"

lemma fold_absorb_lower: "u |\<subseteq>| fold absorb fs u"
proof (induction fs arbitrary: u)
  case Nil
  show ?case by simp
next
  case (Cons f fs)
  have "u |\<subseteq>| absorb f u"
    by (auto simp: absorb_def split: prod.splits)
  also have "\<dots> |\<subseteq>| fold absorb fs (absorb f u)"
    by (rule Cons.IH)
  finally show ?case by simp
qed

lemma fold_absorb_upper:
  "fold absorb fs u |\<subseteq>| u |\<union>| fset_of_list (concat (map (findall identifier_pattern \<circ> snd) fs))"
proof (induction fs arbitrary: u)
  case Nil
  show ?case by simp
next
  case (Cons f fs)
  have "absorb f u |\<subseteq>| u |\<union>| find_usages (snd f)"
    by (auto simp: absorb_def split: prod.splits)
  with Cons.IH [of "absorb f u"] show ?case
    by (auto simp: find_usages_def fset_of_list_elem)
qed

lemma closure_pass_lower: "u |\<subseteq>| closure_pass processed u"
  unfolding closure_pass_def
proof (induction processed arbitrary: u)
  case Nil
  show ?case by simp
next
  case (Cons pb processed)
  obtain p b where pb: "pb = (p, b)" by (cases pb)
  have "u |\<subseteq>| fold absorb (functions_map b) u"
    by (rule fold_absorb_lower)
  also have "\<dots> |\<subseteq>| fold (\<lambda>(path, blocks) used. fold absorb (functions_map blocks) used) processed
                         (fold absorb (functions_map b) u)"
    by (rule Cons.IH)
  finally show ?case by (simp add: pb)
qed

lemma closure_pass_upper: "closure_pass processed u |\<subseteq>| u |\<union>| body_symbols processed"
  unfolding closure_pass_def body_symbols_def all_bodies_def
proof (induction processed arbitrary: u)
  case Nil
  show ?case by simp
next
  case (Cons pb processed)
  obtain p b where pb: "pb = (p, b)" by (cases pb)
  show ?case
    using Cons.IH [of "fold absorb (functions_map b) u"] fold_absorb_upper [of "functions_map b" u]
    by (auto simp: pb fset_of_list_elem)
qed

text \<open>The \<open>while changed\<close> loop; it stops after the first pass that does not grow the set.\<close>

function closure :: "('p \<times> blocks) list \<Rightarrow> string fset \<Rightarrow> string fset" where
  "closure processed used =
     (let count_before = fcard used;
          used' = closure_pass processed used
      in if fcard used' > count_before then closure processed used' else used')"
  by pat_completeness auto
termination
proof (relation "measure (\<lambda>(processed, used). card (fset (body_symbols processed) - fset used))",
       goal_cases)
  case 1
  show ?case by simp
next
  case (2 processed used cb used')
  have lo: "used |\<subseteq>| used'"
    using 2 closure_pass_lower [of used processed] by simp
  have hi: "used' |\<subseteq>| used |\<union>| body_symbols processed"
    using 2 closure_pass_upper [of processed used] by simp
  have "used' \<noteq> used" using 2 by auto
  then obtain x where "x |\<in>| used'" "x |\<notin>| used"
    using lo by auto
  then have "fset (body_symbols processed) - fset used' \<subset> fset (body_symbols processed) - fset used"
    using lo hi by auto
  then have "card (fset (body_symbols processed) - fset used')
             < card (fset (body_symbols processed) - fset used)"
    by (intro psubset_card_mono) auto
  then show ?case by simp
qed

declare closure.simps [simp del]


section \<open>\<open>main\<close>: export\<close>

text \<open>The output file is the sequence of the strings written to it.\<close>

definition out_write :: "string \<Rightarrow> string list \<Rightarrow> string list" where
  "out_write s out = out @ [s]"

definition export_file :: "'p env \<Rightarrow> string fset \<Rightarrow> 'p \<times> blocks \<Rightarrow> string list \<Rightarrow> string list" where
  "export_file env used pb out =
     (case pb of (path, blocks) \<Rightarrow>
        let out = out_write ([CHR 0x0A] @ ''// --- FILE: '' @ display env path @ '' ---'' @ [CHR 0x0A]) out;
            out = fold (\<lambda>h. out_write (h @ [CHR 0x0A])) (headers blocks) out;
            out = fold (\<lambda>d. out_write (d @ [CHR 0x0A])) (defines_list blocks) out;
            out = fold (\<lambda>t. out_write (clean_whitespace t @ [CHR 0x0A])) (types blocks) out
        in fold (\<lambda>(name, body) out.
                   if is_entry blocks \<or> name |\<in>| used
                   then out_write (clean_whitespace body @ [CHR 0x0A]) out
                   else out)
                (functions_map blocks) out)"

definition export :: "('p::linorder) env \<Rightarrow> string fset \<Rightarrow> ('p \<times> blocks) list \<Rightarrow> string list" where
  "export env used processed = fold (export_file env used) (sort_key fst processed) []"

section \<open>\<open>main\<close>\<close>

record 'p result =
  discovered :: "('p \<times> blocks) list"
  symbols :: "string fset"
  files_read :: "'p list"
  written :: "string list"

definition initial :: "'p \<Rightarrow> 'p state" where
  "initial entry_path =
     \<lparr>processed_files = [], used_symbols = {||}, queue = [(entry_path, 0)],
      visited = {}, opened = []\<rparr>"

definition main :: "('p::linorder) env \<Rightarrow> 'p list \<Rightarrow> 'p \<Rightarrow> int \<Rightarrow> error + 'p result" where
  "main env all_files entry_path max_depth =
     (case traverse env all_files entry_path max_depth (initial entry_path) of
        Inl e \<Rightarrow> Inl e
      | Inr st \<Rightarrow>
          let used = closure (processed_files st) (used_symbols st)
          in Inr \<lparr>discovered = processed_files st,
                  symbols = used,
                  files_read = opened st,
                  written = export env used (processed_files st)\<rparr>)"

section \<open>Properties of the brace-balance scan\<close>

text \<open>The number of opening braces of a text minus the number of its closing braces.\<close>

definition balance :: "string \<Rightarrow> int" where
  "balance s = int (count_list s CHR ''{'') - int (count_list s CHR ''}'')"

lemma balance_Cons:
  "balance (c # s) = (if c = CHR ''{'' then 1 else if c = CHR ''}'' then - 1 else 0) + balance s"
  by (simp add: balance_def)


lemma brace_scan_None:
  "brace_scan s bc i = None \<longleftrightarrow>
     (\<forall>n < length s. s ! n = CHR ''}'' \<longrightarrow> bc + balance (take (Suc n) s) \<noteq> 0)"
proof (induction s arbitrary: bc i)
  case Nil
  show ?case by simp
next
  case (Cons c cs)
  define bc' where "bc' = bc + (if c = CHR ''{'' then 1 else if c = CHR ''}'' then - 1 else 0)"
  have step: "bc + balance (take (Suc (Suc n)) (c # cs)) = bc' + balance (take (Suc n) cs)" for n
    by (simp add: balance_Cons bc'_def)
  have zero: "bc + balance (take (Suc 0) (c # cs)) = bc'"
    by (simp add: balance_Cons bc'_def balance_def)
  show ?case
  proof (cases "c = CHR ''}'' \<and> bc - 1 = 0")
    case True
    then have "bc' = 0" by (simp add: bc'_def)
    with True zero show ?thesis by auto
  next
    case False
    then have "brace_scan (c # cs) bc i = brace_scan cs bc' (Suc i)"
      by (auto simp: bc'_def)
    also have "\<dots> = None \<longleftrightarrow>
        (\<forall>n < length cs. cs ! n = CHR ''}'' \<longrightarrow> bc' + balance (take (Suc n) cs) \<noteq> 0)"
      by (rule Cons.IH)
    also have "\<dots> \<longleftrightarrow> (\<forall>n < length (c # cs). (c # cs) ! n = CHR ''}'' \<longrightarrow>
                           bc + balance (take (Suc n) (c # cs)) \<noteq> 0)"
    proof
      assume a: "\<forall>n < length cs. cs ! n = CHR ''}'' \<longrightarrow> bc' + balance (take (Suc n) cs) \<noteq> 0"
      show "\<forall>n < length (c # cs). (c # cs) ! n = CHR ''}'' \<longrightarrow>
                           bc + balance (take (Suc n) (c # cs)) \<noteq> 0"
      proof (intro allI impI)
        fix n assume n: "n < length (c # cs)" "(c # cs) ! n = CHR ''}''"
        show "bc + balance (take (Suc n) (c # cs)) \<noteq> 0"
        proof (cases n)
          case 0
          with n False zero show ?thesis by (auto simp: bc'_def)
        next
          case (Suc k)
          with n a have "bc' + balance (take (Suc k) cs) \<noteq> 0" by auto
          then show ?thesis using step [of k] Suc by simp
        qed
      qed
    next
      assume a: "\<forall>n < length (c # cs). (c # cs) ! n = CHR ''}'' \<longrightarrow>
                           bc + balance (take (Suc n) (c # cs)) \<noteq> 0"
      show "\<forall>n < length cs. cs ! n = CHR ''}'' \<longrightarrow> bc' + balance (take (Suc n) cs) \<noteq> 0"
      proof (intro allI impI)
        fix n assume n: "n < length cs" "cs ! n = CHR ''}''"
        with a [rule_format, of "Suc n"] have "bc + balance (take (Suc (Suc n)) (c # cs)) \<noteq> 0"
          by simp
        then show "bc' + balance (take (Suc n) cs) \<noteq> 0"
          using step [of n] by simp
      qed
    qed
    finally show ?thesis .
  qed
qed


text \<open>
  Claim C9.  If, scanning from the start of a candidate match to the end of the text, the
  brace counter is never zero just after a closing brace, then the scan ends without an end
  index, the candidate leaves the function map as it was, and the loop over the matches goes
  on with the remaining candidates.  (\<open>add_function\<close> and \<open>get_blocks\<close> have no error
  result: nothing is raised.)
\<close>

theorem unterminated_candidate_dropped:
  assumes "\<forall>n < length content - start m.
             content ! (start m + n) = CHR ''}'' \<longrightarrow>
             balance (slice content (start m) (start m + Suc n)) \<noteq> 0"
  shows "brace_scan (drop (start m) content) 0 (start m) = None
         \<and> add_function content m fm = fm
         \<and> fold (add_function content) (m # ms) fm = fold (add_function content) ms fm"
proof -
  have "brace_scan (drop (start m) content) 0 (start m) = None"
    using assms by (simp add: brace_scan_None slice_def)
  then show ?thesis
    by (simp add: add_function_def)
qed

theorem unterminated_candidate_dropped_witness:
  "finditer C_FUNC_DEF ''int g() { { }'' = [\<lparr>start = 0, group0 = ''int g() {'', group1 = Some ''g''\<rparr>]
   \<and> brace_scan (drop (start \<lparr>start = 0, group0 = ''int g() {'', group1 = Some ''g''\<rparr>) ''int g() { { }'') 0
        (start \<lparr>start = 0, group0 = ''int g() {'', group1 = Some ''g''\<rparr>) = None
   \<and> add_function ''int g() { { }'' \<lparr>start = 0, group0 = ''int g() {'', group1 = Some ''g''\<rparr>
         [(''f'', ''int f() {}'')] = [(''f'', ''int f() {}'')]"
proof -
  let ?c = "''int g() { { }''"
  let ?m = "\<lparr>start = 0, group0 = ''int g() {'', group1 = Some ''g''\<rparr>"
  have "brace_scan (drop 0 ?c) 0 0 = None"
    by simp
  then have h: "\<forall>n < length ?c - start ?m.
      ?c ! (start ?m + n) = CHR ''}'' \<longrightarrow> balance (slice ?c (start ?m) (start ?m + Suc n)) \<noteq> 0"
    unfolding brace_scan_None by (simp add: slice_def)
  have "finditer C_FUNC_DEF ?c = [?m]"
    by code_simp
  with unterminated_candidate_dropped [OF h, of "[(''f'', ''int f() {}'')]" "[]"]
  show ?thesis by blast
qed

section \<open>Properties of the matcher\<close>








section \<open>The function map of \<open>get_blocks\<close>\<close>

















section \<open>\<open>strip_comments\<close> on literals\<close>

lemmas ends_basic = ends.simps(1-4) ends.simps(7-10)

text \<open>
  The text between the quotes of a literal, as the pattern reads it: a sequence of
  escapes (a backslash and any character) and of characters other than the backslash and
  the quote.  It may contain \<^verbatim>\<open>//\<close> and \<^verbatim>\<open>/*\<close>.
\<close>

fun lit_body :: "char \<Rightarrow> string \<Rightarrow> bool" where
  "lit_body q [] = True"
| "lit_body q [c] = (c \<noteq> q \<and> c \<noteq> CHR 0x5C)"
| "lit_body q (c # d # cs) =
     (if c = CHR 0x5C then lit_body q cs else c \<noteq> q \<and> lit_body q (d # cs))"

text \<open>
  A text without comments, in pieces: code without a slash or a quote, and single- or
  double-quoted literals.
\<close>

datatype piece = Code string | Quoted char string

fun render :: "piece \<Rightarrow> string" where
  "render (Code s) = s"
| "render (Quoted q body) = q # body @ [q]"

fun well_formed :: "piece \<Rightarrow> bool" where
  "well_formed (Code s) = list_all (\<lambda>c. c \<noteq> CHR ''/'' \<and> c \<noteq> CHR 0x27 \<and> c \<noteq> CHR 0x22) s"
| "well_formed (Quoted q body) = ((q = CHR 0x27 \<or> q = CHR 0x22) \<and> lit_body q body)"

text \<open>The repeated part \<^verbatim>\<open>(?:\\.|[^\\q])\<close> of \<open>quoted q\<close>.\<close>

definition item :: "char \<Rightarrow> regex" where
  "item q = Alt (Seq (Chr CHR 0x5C) (Cls (\<lambda>c. True))) (Cls (\<lambda>c. c \<noteq> CHR 0x5C \<and> c \<noteq> q))"

lemma ends_item_quote: "q \<noteq> CHR 0x5C \<Longrightarrow> ends (item q) (p, q # rest, g) = []"
  by (simp add: item_def ends_basic Chr_def)

lemma ends_item_plain:
  "c \<noteq> q \<Longrightarrow> c \<noteq> CHR 0x5C \<Longrightarrow> ends (item q) (p, c # rest, g) = [(Some c, rest, g)]"
  by (simp add: item_def ends_basic Chr_def)

lemma ends_item_escape:
  "ends (item q) (p, CHR 0x5C # d # rest, g) = [(Some d, rest, g)]"
  by (simp add: item_def ends_basic Chr_def)

lemma star_single:
  assumes "ends a (p, s, g) = [(p1, s1, g1)]" "length s1 < length s"
  shows "ends (Star a) (p, s, g) = ends (Star a) (p1, s1, g1) @ [(p, s, g)]"
  by (subst ends.simps) (simp add: assms)

lemma star_none:
  assumes "ends a st = []"
  shows "ends (Star a) st = [st]"
  by (subst ends.simps) (simp add: assms)

lemma star_body:
  assumes "q \<noteq> CHR 0x5C" "lit_body q body"
  shows "\<exists>p' xs. ends (Star (item q)) (p, body @ q # rest, g) = (p', q # rest, g) # xs"
  using assms
proof (induction q body arbitrary: p rule: lit_body.induct)
  case (1 q)
  then show ?case
    by (simp add: star_none ends_item_quote)
next
  case (2 q c)
  then have "ends (item q) (p, [c] @ q # rest, g) = [(Some c, q # rest, g)]"
    by (simp add: ends_item_plain)
  then have "ends (Star (item q)) (p, [c] @ q # rest, g)
        = ends (Star (item q)) (Some c, q # rest, g) @ [(p, [c] @ q # rest, g)]"
    by (intro star_single) auto
  then show ?case
    using 2 by (simp add: star_none ends_item_quote)
next
  case (3 q c d cs)
  show ?case
  proof (cases "c = CHR 0x5C")
    case True
    have "ends (item q) (p, (c # d # cs) @ q # rest, g) = [(Some d, cs @ q # rest, g)]"
      using True by (simp add: ends_item_escape)
    then have "ends (Star (item q)) (p, (c # d # cs) @ q # rest, g)
        = ends (Star (item q)) (Some d, cs @ q # rest, g) @ [(p, (c # d # cs) @ q # rest, g)]"
      by (intro star_single) auto
    moreover have "lit_body q cs"
      using "3.prems"(2) True by simp
    from "3.IH"(1) [OF True "3.prems"(1) this]
    obtain p' xs where "ends (Star (item q)) (Some d, cs @ q # rest, g) = (p', q # rest, g) # xs"
      by blast
    ultimately show ?thesis by simp
  next
    case False
    with "3.prems" have c: "c \<noteq> q" and b: "lit_body q (d # cs)" by auto
    have "ends (item q) (p, (c # d # cs) @ q # rest, g) = [(Some c, (d # cs) @ q # rest, g)]"
      using False c by (simp add: ends_item_plain)
    then have "ends (Star (item q)) (p, (c # d # cs) @ q # rest, g)
        = ends (Star (item q)) (Some c, (d # cs) @ q # rest, g) @ [(p, (c # d # cs) @ q # rest, g)]"
      by (intro star_single) auto
    moreover from "3.IH"(2) [OF False "3.prems"(1) b]
    obtain p' xs where "ends (Star (item q)) (Some c, (d # cs) @ q # rest, g) = (p', q # rest, g) # xs"
      by blast
    ultimately show ?thesis by simp
  qed
qed

lemma ends_quoted:
  assumes "q \<noteq> CHR 0x5C" "lit_body q body"
  shows "\<exists>xs. ends (quoted q) (p, q # body @ q # rest, g) = (Some q, rest, g) # xs"
proof -
  from star_body [OF assms] obtain p' xs
    where "ends (Star (item q)) (Some q, body @ q # rest, g) = (p', q # rest, g) # xs"
    by blast
  then show ?thesis
    by (simp add: quoted_def ends_basic Chr_def item_def)
qed

lemma ends_quoted_other:
  "c \<noteq> q \<Longrightarrow> ends (quoted q) (p, c # rest, g) = []"
  by (simp add: quoted_def ends_basic Chr_def)

lemma ends_comment_pattern_not_slash:
  "c \<noteq> CHR ''/'' \<Longrightarrow>
   ends comment_pattern (p, c # rest, g)
     = ends (quoted CHR 0x27) (p, c # rest, g) @ ends (quoted CHR 0x22) (p, c # rest, g)"
  by (simp add: comment_pattern_def ends_basic Chr_def lit_def)

lemma ends_comment_pattern_literal:
  assumes "q = CHR 0x27 \<or> q = CHR 0x22" "lit_body q body"
  shows "\<exists>xs. ends comment_pattern (p, q # body @ q # rest, g) = (Some q, rest, g) # xs"
proof -
  have q: "q \<noteq> CHR 0x5C" "q \<noteq> CHR ''/''" using assms(1) by auto
  from ends_quoted [OF q(1) assms(2)] obtain xs
    where e: "ends (quoted q) (p, q # body @ q # rest, g) = (Some q, rest, g) # xs" by blast
  show ?thesis
  proof (cases "q = CHR 0x27")
    case True
    with e q show ?thesis by (simp add: ends_comment_pattern_not_slash)
  next
    case False
    with assms(1) have "q = CHR 0x22" by simp
    with e q show ?thesis
      by (simp add: ends_comment_pattern_not_slash ends_quoted_other)
  qed
qed

lemma ends_comment_pattern_plain:
  assumes "c \<noteq> CHR ''/''" "c \<noteq> CHR 0x27" "c \<noteq> CHR 0x22"
  shows "ends comment_pattern (p, c # rest, g) = []"
  using assms by (simp add: ends_comment_pattern_not_slash ends_quoted_other)

lemma sub_from_literal:
  assumes "q = CHR 0x27 \<or> q = CHR 0x22" "lit_body q body"
  shows "sub_from comment_pattern replacer p (q # body @ q # rest)
         = q # body @ q # sub_from comment_pattern replacer (Some q) rest"
proof -
  from ends_comment_pattern_literal [OF assms] obtain xs
    where "ends comment_pattern (p, q # body @ q # rest, None) = (Some q, rest, None) # xs"
    by blast
  moreover have "replacer (q # body @ [q]) = q # body @ [q]"
    using assms(1) by (auto simp: replacer_def startswith_def)
  ultimately show ?thesis by simp
qed

lemma sub_from_plain:
  assumes "list_all (\<lambda>c. c \<noteq> CHR ''/'' \<and> c \<noteq> CHR 0x27 \<and> c \<noteq> CHR 0x22) s"
  shows "\<exists>p'. sub_from comment_pattern replacer p (s @ rest)
               = s @ sub_from comment_pattern replacer p' rest"
  using assms
proof (induction s arbitrary: p)
  case Nil
  show ?case by auto
next
  case (Cons c s)
  then have "ends comment_pattern (p, c # s @ rest, None) = []"
    by (simp add: ends_comment_pattern_plain)
  then have "sub_from comment_pattern replacer p ((c # s) @ rest)
             = c # sub_from comment_pattern replacer (Some c) (s @ rest)"
    by simp
  moreover from Cons obtain p' where
    "sub_from comment_pattern replacer (Some c) (s @ rest) = s @ sub_from comment_pattern replacer p' rest"
    by auto
  ultimately show ?case by auto
qed

lemma sub_from_pieces:
  assumes "list_all well_formed ps"
  shows "sub_from comment_pattern replacer p (concat (map render ps)) = concat (map render ps)"
  using assms
proof (induction ps arbitrary: p)
  case Nil
  have "ends comment_pattern (p, [], None) = []"
    by (simp add: comment_pattern_def ends_basic Chr_def lit_def quoted_def)
  then show ?case by simp
next
  case (Cons x ps)
  show ?case
  proof (cases x)
    case (Code s)
    with Cons.prems sub_from_plain [of s p "concat (map render ps)"] Cons.IH
    show ?thesis by auto
  next
    case (Quoted q body)
    with Cons.prems sub_from_literal [of q body p "concat (map render ps)"] Cons.IH
    show ?thesis by auto
  qed
qed

text \<open>
  Where \<open>strip_comments\<close> does preserve literals: a text made of single- and double-quoted
  literals, whatever comment markers they contain, and of code without slashes and quotes
  between them is returned unchanged.  The example is the text
  \<^verbatim>\<open>char *s = "//not a comment";\<close>.
\<close>

lemma literals_preserved:
  assumes "list_all well_formed ps"
  shows "strip_comments (concat (map render ps)) = concat (map render ps)"
  using sub_from_pieces [OF assms] by (simp add: strip_comments_def re_sub_def)

lemma literals_preserved_example:
  "strip_comments ''char *s = \"//not a comment\";'' = ''char *s = \"//not a comment\";''"
  using literals_preserved [of "[Code ''char *s = '', Quoted CHR 0x22 ''//not a comment'', Code '';'']"]
  by simp


text \<open>
  Claim C4 at texts with a quote character outside a literal.  In
  \<^verbatim>\<open>a = 1'000; s = "it's"; t = "//x";\<close> the digit separator opens a single-quoted match
  that ends inside the first string, and after an unbalanced double quote on the line before
  it the example of the specification is read from its opening quote as code: in both texts
  the content of a string literal is taken for a comment and replaced by a space.
\<close>

theorem literal_content_stripped:
  "strip_comments (''a = 1'' @ [CHR 0x27] @ ''000; s = \"it'' @ [CHR 0x27] @ ''s\"; t = \"//x\";'')
     = ''a = 1'' @ [CHR 0x27] @ ''000; s = \"it'' @ [CHR 0x27] @ ''s\"; t = \" ''
   \<and> strip_comments (''#error unbalanced \" quote'' @ [CHR 0x0A] @ ''char *s = \"//not a comment\";'')
     = ''#error unbalanced \" quote'' @ [CHR 0x0A] @ ''char *s = \" ''"
  by code_simp

section \<open>Type declarations\<close>

text \<open>
  Claim C8 at a declaration with a nested block: the span captured by \<open>C_TYPE_DEF\<close> ends
  at the inner closing brace, so it has two opening braces and one closing brace.
\<close>

theorem nested_struct_truncated:
  "types (get_blocks ''struct A { struct B { int x; } b; int y; };'')
     = [''struct A { struct B { int x; } b;'']
   \<and> count_list ''struct A { struct B { int x; } b;'' CHR ''{'' = 2
   \<and> count_list ''struct A { struct B { int x; } b;'' CHR ''}'' = 1"
proof -
  have "types (get_blocks ''struct A { struct B { int x; } b; int y; };'')
     = [''struct A { struct B { int x; } b;'']"
    by code_simp
  then show ?thesis by simp
qed

section \<open>An example environment\<close>

text \<open>
  A small \<open>pathlib\<close> for the examples: paths are strings with \<open>/\<close> between the
  components, every path resolves to itself, and the files are given by a table.
\<close>

definition example_env :: "(string \<times> string) list \<Rightarrow> string env" where
  "example_env files =
     \<lparr>path_of = (\<lambda>s. s),
      path_parent = (\<lambda>p. rev (drop 1 (dropWhile (\<lambda>c. c \<noteq> CHR ''/'') (rev p)))),
      path_join = (\<lambda>p s. if p = [] then s else p @ ''/'' @ s),
      path_stem = (\<lambda>p. let name = rev (takeWhile (\<lambda>c. c \<noteq> CHR ''/'') (rev p))
                         in if CHR ''.'' \<in> set name
                            then rev (drop 1 (dropWhile (\<lambda>c. c \<noteq> CHR ''.'') (rev name)))
                            else name),
      path_resolve = (\<lambda>p. Some p),
      read_file = map_of files,
      display = (\<lambda>p. p)\<rparr>"

section \<open>\<open>resolve_path\<close>\<close>

lemma try_candidates_filter:
  "try_candidates env cs all_files =
     (case filter (\<lambda>r. r \<in> set all_files) (List.map_filter (path_resolve env) cs) of
        [] \<Rightarrow> None
      | r # _ \<Rightarrow> Some r)"
  by (induction cs) (auto simp: List.map_filter_simps split: option.splits)

text \<open>
  Claim C7.  \<open>resolve_path\<close> goes through six candidates in this order: the include string
  under the directory of the including file, the stem of the include string with \<open>.c\<close>
  and then with \<open>.cpp\<close> in that directory, and the include string under \<open>include\<close>,
  \<open>src\<close> and \<open>lib\<close>.  Of the candidates that resolve, the first whose resolved path is
  a known file gives the result (the resolved path); there is none exactly when the result
  is \<open>None\<close>.
\<close>

theorem resolve_path_first_match:
  "resolve_path env base_file import_str all_files =
     (case filter (\<lambda>resolved. resolved \<in> set all_files)
             (List.map_filter (path_resolve env)
                [path_join env (path_parent env base_file) import_str,
                 path_join env (path_parent env base_file)
                   (path_stem env (path_of env import_str) @ ''.c''),
                 path_join env (path_parent env base_file)
                   (path_stem env (path_of env import_str) @ ''.cpp''),
                 path_join env (path_of env ''include'') import_str,
                 path_join env (path_of env ''src'') import_str,
                 path_join env (path_of env ''lib'') import_str]) of
        [] \<Rightarrow> None
      | resolved # _ \<Rightarrow> Some resolved)"
  by (simp add: resolve_path_def candidates_def Let_def try_candidates_filter)

theorem resolve_path_first_match_witness:
  "resolve_path (example_env []) ''app/main.c'' ''util.h'' [''src/util.h'', ''app/util.c''] = Some ''app/util.c''
   \<and> resolve_path (example_env []) ''app/main.c'' ''util.h'' [''lib/util.h'', ''src/util.h''] = Some ''src/util.h''
   \<and> resolve_path (example_env []) ''app/main.c'' ''util.h'' [''app/other.h''] = None"
  unfolding resolve_path_first_match
  by (simp add: example_env_def List.map_filter_simps)

section \<open>The traversal, step by step\<close>

lemma traverse_done:
  "queue st = [] \<Longrightarrow> traverse env all_files entry_path max_depth st = Inr st"
  by (subst traverse.simps) simp

lemma traverse_skip:
  "queue st = (curr_path, depth) # rest \<Longrightarrow> curr_path \<in> visited st \<or> depth > max_depth \<Longrightarrow>
   traverse env all_files entry_path max_depth st
     = traverse env all_files entry_path max_depth (st\<lparr>queue := rest\<rparr>)"
  by (subst traverse.simps) auto

lemma traverse_open_error:
  "queue st = (curr_path, depth) # rest \<Longrightarrow> curr_path \<notin> visited st \<Longrightarrow> \<not> depth > max_depth \<Longrightarrow>
   read_file env curr_path = None \<Longrightarrow>
   traverse env all_files entry_path max_depth st = Inl OpenError"
  by (subst traverse.simps) auto

lemma traverse_visit:
  "queue st = (curr_path, depth) # rest \<Longrightarrow> curr_path \<notin> visited st \<Longrightarrow> \<not> depth > max_depth \<Longrightarrow>
   read_file env curr_path = Some raw_content \<Longrightarrow>
   traverse env all_files entry_path max_depth st
     = traverse env all_files entry_path max_depth
         (visit env all_files entry_path curr_path depth raw_content (st\<lparr>queue := rest\<rparr>))"
  by (subst traverse.simps) auto

lemma traverse_skip_all:
  "\<forall>(p, d) \<in> set (queue st). p \<in> visited st \<or> d > max_depth \<Longrightarrow>
   traverse env all_files entry_path max_depth st = Inr (st\<lparr>queue := []\<rparr>)"
proof (induction "queue st" arbitrary: st)
  case Nil
  then show ?case by (simp add: traverse_done)
next
  case (Cons x xs)
  obtain p d where x: "x = (p, d)" by (cases x)
  have q: "queue st = (p, d) # xs" using Cons(2) x by simp
  have "traverse env all_files entry_path max_depth st
        = traverse env all_files entry_path max_depth (st\<lparr>queue := xs\<rparr>)"
    using Cons(3) q by (intro traverse_skip) auto
  also have "\<dots> = Inr (st\<lparr>queue := xs, queue := []\<rparr>)"
    using Cons(3) q by (intro Cons(1)) auto
  finally show ?case by simp
qed

lemma closure_empty: "closure [] used = used"
  by (subst closure.simps) (simp add: closure_pass_def)

text \<open>
  Claim C10.  With a negative \<open>max_depth\<close> the entry file itself is skipped: no file is
  opened, no file is discovered (so none is flagged as entry), no symbol is used and nothing
  is written.
\<close>

theorem negative_depth_processes_nothing:
  assumes "max_depth < 0"
  shows "main env all_files entry_path max_depth
         = Inr \<lparr>discovered = [], symbols = {||}, files_read = [], written = []\<rparr>"
proof -
  have "traverse env all_files entry_path max_depth (initial entry_path)
        = Inr ((initial entry_path)\<lparr>queue := []\<rparr>)"
    using assms by (intro traverse_skip_all) (simp add: initial_def)
  then show ?thesis
    by (simp add: main_def initial_def closure_empty export_def)
qed

theorem negative_depth_processes_nothing_witness:
  "main (example_env [(''main.c'', ''int main() { return 0; }'')]) [''main.c''] ''main.c'' (- 1)
   = Inr \<lparr>discovered = [], symbols = {||}, files_read = [], written = []\<rparr>"
  using negative_depth_processes_nothing [of "- 1"] by simp


section \<open>What a visit does to the state\<close>

lemma dict_set_fresh: "k \<notin> fst ` set kvs \<Longrightarrow> dict_set k v kvs = kvs @ [(k, v)]"
  by (induction kvs) auto

lemma dict_set_last: "k \<notin> fst ` set kvs \<Longrightarrow> dict_set k v' (kvs @ [(k, v)]) = kvs @ [(k, v')]"
  by (induction kvs) auto

lemma enqueue_fold:
  "fold (enqueue env all_files curr_path depth vis) incs q
     = q @ map (\<lambda>res. (res, depth + 1))
             (filter (\<lambda>res. res \<notin> vis)
                (List.map_filter (\<lambda>inc. resolve_path env curr_path inc all_files) incs))"
  by (induction incs arbitrary: q)
     (auto simp: enqueue_def List.map_filter_simps split: option.splits)

text \<open>The blocks stored for a visited file: those of \<open>get_blocks\<close>, flagged for the entry file.\<close>

definition entry_blocks :: "'p \<Rightarrow> 'p \<Rightarrow> string \<Rightarrow> blocks" where
  "entry_blocks entry_path curr_path raw_content =
     (if curr_path = entry_path then (get_blocks raw_content)\<lparr>is_entry := True\<rparr>
      else get_blocks raw_content)"

lemma visit_processed:
  assumes "curr_path \<notin> fst ` set (processed_files st)"
  shows "processed_files (visit env all_files entry_path curr_path depth raw st)
         = processed_files st @ [(curr_path, entry_blocks entry_path curr_path raw)]"
proof (cases "curr_path = entry_path")
  case True
  with assms have "entry_path \<notin> fst ` set (processed_files st)" by simp
  then show ?thesis
    using True by (simp add: visit_def Let_def entry_blocks_def dict_set_fresh dict_set_last)
next
  case False
  with assms show ?thesis
    by (simp add: visit_def Let_def entry_blocks_def dict_set_fresh)
qed

lemma visit_fields:
  "visited (visit env all_files entry_path curr_path depth raw st) = insert curr_path (visited st)"
  "opened (visit env all_files entry_path curr_path depth raw st) = opened st @ [curr_path]"
  "used_symbols (visit env all_files entry_path curr_path depth raw st)
     = (if curr_path = entry_path then used_symbols st |\<union>| find_usages raw else used_symbols st)"
  "queue (visit env all_files entry_path curr_path depth raw st)
     = queue st @ map (\<lambda>res. (res, depth + 1))
         (filter (\<lambda>res. res \<noteq> curr_path \<and> res \<notin> visited st)
            (List.map_filter (\<lambda>inc. resolve_path env curr_path inc all_files)
               (findall include_pattern (strip_comments raw))))"
  by (simp_all add: visit_def Let_def enqueue_fold)

lemma traverse_invariant:
  assumes "traverse env all_files entry_path max_depth st = Inr st'"
    and "I st"
    and skip: "\<And>st curr_path depth rest.
           I st \<Longrightarrow> queue st = (curr_path, depth) # rest \<Longrightarrow>
           curr_path \<in> visited st \<or> depth > max_depth \<Longrightarrow> I (st\<lparr>queue := rest\<rparr>)"
    and visit: "\<And>st curr_path depth rest raw.
           I st \<Longrightarrow> queue st = (curr_path, depth) # rest \<Longrightarrow>
           curr_path \<notin> visited st \<Longrightarrow> \<not> depth > max_depth \<Longrightarrow>
           read_file env curr_path = Some raw \<Longrightarrow>
           I (visit env all_files entry_path curr_path depth raw (st\<lparr>queue := rest\<rparr>))"
  shows "I st' \<and> queue st' = []"
  using assms
proof (induction env all_files entry_path max_depth st rule: traverse.induct)
  case (1 env all_files entry_path max_depth st)
  note skip = "1.prems"(3) and visit = "1.prems"(4)
  show ?case
  proof (cases "queue st")
    case Nil
    with "1.prems" show ?thesis by (simp add: traverse_done)
  next
    case (Cons x rest)
    obtain curr_path depth where x: "x = (curr_path, depth)" by (cases x)
    have q: "queue st = (curr_path, depth) # rest" using Cons x by simp
    show ?thesis
    proof (cases "curr_path \<in> visited st \<or> depth > max_depth")
      case True
      have t: "traverse env all_files entry_path max_depth (st\<lparr>queue := rest\<rparr>) = Inr st'"
        using "1.prems"(1) traverse_skip [OF q True] by simp
      have i: "I (st\<lparr>queue := rest\<rparr>)"
        using skip [OF "1.prems"(2) q True] .
      show ?thesis
        by (rule "1.IH"(1) [OF Cons x [symmetric] True t i]) (erule (2) skip, erule (4) visit)
    next
      case False
      then have nv: "curr_path \<notin> visited st" and nd: "\<not> depth > max_depth" by auto
      show ?thesis
      proof (cases "read_file env curr_path")
        case None
        with "1.prems"(1) traverse_open_error [OF q nv nd None] show ?thesis by simp
      next
        case (Some raw)
        let ?st = "visit env all_files entry_path curr_path depth raw (st\<lparr>queue := rest\<rparr>)"
        have t: "traverse env all_files entry_path max_depth ?st = Inr st'"
          using "1.prems"(1) traverse_visit [OF q nv nd Some] by simp
        have i: "I ?st"
          using visit [OF "1.prems"(2) q nv nd Some] .
        show ?thesis
          by (rule "1.IH"(2) [OF Cons x [symmetric] False Some t i]) (erule (2) skip, erule (4) visit)
      qed
    qed
  qed
qed

section \<open>Every file is visited once\<close>

text \<open>
  The invariant of the traversal: the files opened are distinct, they are the visited
  paths and the keys of \<open>processed_files\<close> in the same order, and the entry flag is set on
  the blocks of the entry path only.
\<close>

definition visited_once :: "'p \<Rightarrow> 'p state \<Rightarrow> bool" where
  "visited_once entry_path st \<longleftrightarrow>
     distinct (opened st) \<and> set (opened st) = visited st
     \<and> map fst (processed_files st) = opened st
     \<and> list_all (\<lambda>(p, b). is_entry b = (p = entry_path)) (processed_files st)"

lemma is_entry_entry_blocks:
  "is_entry (entry_blocks entry_path curr_path raw) = (curr_path = entry_path)"
  by (simp add: entry_blocks_def get_blocks_def Let_def)

lemma visited_once_initial: "visited_once entry_path (initial entry_path)"
  by (simp add: visited_once_def initial_def)

lemma visited_once_skip:
  "visited_once entry_path st \<Longrightarrow> visited_once entry_path (st\<lparr>queue := rest\<rparr>)"
  by (simp add: visited_once_def)

lemma visited_once_visit:
  assumes "visited_once entry_path st" "curr_path \<notin> visited st"
  shows "visited_once entry_path (visit env all_files entry_path curr_path depth raw (st\<lparr>queue := rest\<rparr>))"
proof -
  have "curr_path \<notin> fst ` set (processed_files (st\<lparr>queue := rest\<rparr>))"
    using assms by (auto simp: visited_once_def simp flip: set_map)
  from visit_processed [OF this] assms show ?thesis
    by (simp add: visited_once_def visit_fields is_entry_entry_blocks)
qed

lemma traverse_visited_once:
  assumes "traverse env all_files entry_path max_depth (initial entry_path) = Inr st"
  shows "visited_once entry_path st"
proof -
  have "visited_once entry_path st \<and> queue st = []"
    using assms visited_once_initial
  proof (rule traverse_invariant)
    fix st curr_path depth rest
    assume "visited_once entry_path st"
    then show "visited_once entry_path (st\<lparr>queue := rest\<rparr>)"
      by (rule visited_once_skip)
  next
    fix st :: "'a state" and curr_path depth rest raw
    assume "visited_once entry_path st" "curr_path \<notin> visited st"
    then show "visited_once entry_path
        (visit env all_files entry_path curr_path depth raw (st\<lparr>queue := rest\<rparr>))"
      by (rule visited_once_visit)
  qed
  then show ?thesis by simp
qed

lemma distinct_count_list: "distinct xs \<Longrightarrow> count_list xs p \<le> 1"
  by (induction xs) (auto simp: count_list_0_iff)

section \<open>Files within the depth limit are discovered\<close>

text \<open>
  The files a file includes, as the traversal resolves them, and the files at the end of an
  include chain of length \<open>n\<close> from the entry file.
\<close>

definition includes_of :: "'p env \<Rightarrow> 'p list \<Rightarrow> 'p \<Rightarrow> 'p list" where
  "includes_of env all_files p =
     (case read_file env p of
        None \<Rightarrow> []
      | Some raw \<Rightarrow>
          List.map_filter (\<lambda>inc. resolve_path env p inc all_files)
            (findall include_pattern (strip_comments raw)))"

fun level :: "'p env \<Rightarrow> 'p list \<Rightarrow> 'p \<Rightarrow> nat \<Rightarrow> 'p list" where
  "level env all_files entry_path 0 = [entry_path]"
| "level env all_files entry_path (Suc n) =
     concat (map (includes_of env all_files) (level env all_files entry_path n))"

text \<open>
  The invariant of the breadth-first order, for a map \<open>dm\<close> from the visited paths to the
  depths at which they were visited: the depths in the queue ascend and differ by at most
  one, no visited path is deeper than a queued pair, every file included by a visited file
  is visited no deeper than one level below it, or is queued at that level, or is beyond the
  limit, and the same holds for the entry file at depth 0.
\<close>

definition bfs_inv :: "'p env \<Rightarrow> 'p list \<Rightarrow> 'p \<Rightarrow> int \<Rightarrow> ('p \<Rightarrow> int) \<Rightarrow> 'p state \<Rightarrow> bool" where
  "bfs_inv env all_files entry_path max_depth dm st \<longleftrightarrow>
     sorted (map snd (queue st))
     \<and> (\<forall>d \<in> snd ` set (queue st). \<forall>e \<in> snd ` set (queue st). e \<le> d + 1)
     \<and> (\<forall>p \<in> visited st. \<forall>d \<in> snd ` set (queue st). dm p \<le> d)
     \<and> (\<forall>p \<in> visited st. \<forall>q \<in> set (includes_of env all_files p).
           (q \<in> visited st \<and> dm q \<le> dm p + 1) \<or> (q, dm p + 1) \<in> set (queue st)
           \<or> dm p + 1 > max_depth)
     \<and> ((entry_path \<in> visited st \<and> dm entry_path \<le> 0) \<or> (entry_path, 0) \<in> set (queue st)
          \<or> 0 > max_depth)"

lemma bfs_inv_initial: "bfs_inv env all_files entry_path max_depth dm (initial entry_path)"
  by (simp add: bfs_inv_def initial_def)

lemma bfs_inv_skip:
  assumes inv: "bfs_inv env all_files entry_path max_depth dm st"
    and q: "queue st = (c, d) # rest"
    and skip: "c \<in> visited st \<or> d > max_depth"
  shows "bfs_inv env all_files entry_path max_depth dm (st\<lparr>queue := rest\<rparr>)"
proof -
  from inv q have s: "sorted (map snd rest)"
    and w: "\<forall>d \<in> snd ` set rest. \<forall>e \<in> snd ` set rest. e \<le> d + 1"
    and v: "\<forall>p \<in> visited st. \<forall>e \<in> snd ` set rest. dm p \<le> e"
    and vd: "\<forall>p \<in> visited st. dm p \<le> d"
    by (auto simp: bfs_inv_def)
  have i: "(q \<in> visited st \<and> dm q \<le> dm p + 1) \<or> (q, dm p + 1) \<in> set rest \<or> dm p + 1 > max_depth"
    if "p \<in> visited st" "q \<in> set (includes_of env all_files p)" for p q
  proof -
    from inv that have "(q \<in> visited st \<and> dm q \<le> dm p + 1) \<or> (q, dm p + 1) \<in> set (queue st)
           \<or> dm p + 1 > max_depth"
      unfolding bfs_inv_def by blast
    then show ?thesis
      using q skip vd by auto
  qed
  have e: "(entry_path \<in> visited st \<and> dm entry_path \<le> 0) \<or> (entry_path, 0) \<in> set rest
          \<or> 0 > max_depth"
  proof -
    from inv have "(entry_path \<in> visited st \<and> dm entry_path \<le> 0) \<or> (entry_path, 0) \<in> set (queue st)
          \<or> 0 > max_depth"
      unfolding bfs_inv_def by blast
    then show ?thesis
      using q skip vd by auto
  qed
  show ?thesis
    unfolding bfs_inv_def using s w v i e by simp
qed


lemma bfs_inv_visit:
  assumes inv: "bfs_inv env all_files entry_path max_depth dm st"
    and q: "queue st = (c, d) # rest"
    and nv: "c \<notin> visited st"
    and r: "read_file env c = Some raw"
  shows "bfs_inv env all_files entry_path max_depth (dm(c := d))
           (visit env all_files entry_path c d raw (st\<lparr>queue := rest\<rparr>))"
proof -
  let ?st = "visit env all_files entry_path c d raw (st\<lparr>queue := rest\<rparr>)"
  let ?new = "filter (\<lambda>res. res \<noteq> c \<and> res \<notin> visited st) (includes_of env all_files c)"
  have qu: "queue ?st = rest @ map (\<lambda>res. (res, d + 1)) ?new"
    by (simp add: visit_fields includes_of_def r)
  have vi: "visited ?st = insert c (visited st)"
    by (simp add: visit_fields)
  from inv q have s: "sorted (map snd rest)"
    and lo: "\<forall>e \<in> snd ` set rest. d \<le> e"
    and hi: "\<forall>e \<in> snd ` set rest. e \<le> d + 1"
    and vd: "\<forall>p \<in> visited st. dm p \<le> d"
    by (auto simp: bfs_inv_def)
  have depths: "snd ` set (queue ?st) \<subseteq> snd ` set rest \<union> {d + 1}"
    unfolding qu by auto
  have c: "sorted (map (snd \<circ> (\<lambda>res. (res, d + 1))) xs)" for xs :: "'a list"
    by (induction xs) auto
  have 1: "sorted (map snd (queue ?st))"
    unfolding qu using s hi c by (auto simp: sorted_append)
  have 2: "\<forall>a \<in> snd ` set (queue ?st). \<forall>e \<in> snd ` set (queue ?st). e \<le> a + 1"
  proof (intro ballI)
    fix a e assume "a \<in> snd ` set (queue ?st)" "e \<in> snd ` set (queue ?st)"
    with depths have "a \<in> snd ` set rest \<union> {d + 1}" "e \<in> snd ` set rest \<union> {d + 1}" by auto
    with lo hi have "d \<le> a" "e \<le> d + 1" by auto
    then show "e \<le> a + 1" by simp
  qed
  have 3: "\<forall>p \<in> visited ?st. \<forall>e \<in> snd ` set (queue ?st). (dm(c := d)) p \<le> e"
  proof (intro ballI)
    fix p e assume p: "p \<in> visited ?st" and "e \<in> snd ` set (queue ?st)"
    with depths have "e \<in> snd ` set rest \<union> {d + 1}" by auto
    with lo have "d \<le> e" by auto
    moreover have "(dm(c := d)) p \<le> d"
      using p vd vi by auto
    ultimately show "(dm(c := d)) p \<le> e" by simp
  qed
  have 4: "(b \<in> visited ?st \<and> (dm(c := d)) b \<le> (dm(c := d)) p + 1)
           \<or> (b, (dm(c := d)) p + 1) \<in> set (queue ?st)
           \<or> (dm(c := d)) p + 1 > max_depth"
    if p: "p \<in> visited ?st" and b: "b \<in> set (includes_of env all_files p)" for p b
  proof (cases "p = c")
    case True
    show ?thesis
    proof (cases "b = c \<or> b \<in> visited st")
      case True
      with \<open>p = c\<close> vd vi show ?thesis by auto
    next
      case False
      with b \<open>p = c\<close> have "(b, d + 1) \<in> set (queue ?st)"
        unfolding qu by auto
      with \<open>p = c\<close> show ?thesis by simp
    qed
  next
    case False
    with p vi have pv: "p \<in> visited st" by simp
    with inv b have "(b \<in> visited st \<and> dm b \<le> dm p + 1) \<or> (b, dm p + 1) \<in> set (queue st)
           \<or> dm p + 1 > max_depth"
      unfolding bfs_inv_def by blast
    then consider "b \<in> visited st" "dm b \<le> dm p + 1" | "b = c" "d = dm p + 1"
      | "(b, dm p + 1) \<in> set rest" | "dm p + 1 > max_depth"
      using q by auto
    then show ?thesis
    proof cases
      case 1
      with nv False vi show ?thesis by auto
    next
      case 2
      with False vi show ?thesis by simp
    next
      case 3
      with False show ?thesis unfolding qu by simp
    next
      case 4
      with False show ?thesis by simp
    qed
  qed
  have 5: "(entry_path \<in> visited ?st \<and> (dm(c := d)) entry_path \<le> 0)
           \<or> (entry_path, 0) \<in> set (queue ?st) \<or> 0 > max_depth"
  proof -
    from inv have "(entry_path \<in> visited st \<and> dm entry_path \<le> 0) \<or> (entry_path, 0) \<in> set (queue st)
          \<or> 0 > max_depth"
      unfolding bfs_inv_def by blast
    then consider "entry_path \<in> visited st" "dm entry_path \<le> 0" | "entry_path = c" "d = 0"
      | "(entry_path, 0) \<in> set rest" | "0 > max_depth"
      using q by auto
    then show ?thesis
    proof cases
      case 1
      with nv vi show ?thesis by auto
    next
      case 2
      with vi show ?thesis by simp
    next
      case 3
      then show ?thesis unfolding qu by simp
    next
      case 4
      then show ?thesis by simp
    qed
  qed
  show ?thesis
    unfolding bfs_inv_def using 1 2 3 4 5 by blast
qed

lemma traverse_bfs_inv:
  assumes "traverse env all_files entry_path max_depth (initial entry_path) = Inr st"
  shows "\<exists>dm. bfs_inv env all_files entry_path max_depth dm st \<and> queue st = []"
proof -
  have "(\<exists>dm. bfs_inv env all_files entry_path max_depth dm st) \<and> queue st = []"
    using assms
  proof (rule traverse_invariant)
    show "\<exists>dm. bfs_inv env all_files entry_path max_depth dm (initial entry_path)"
      by (rule exI [of _ "\<lambda>_. 0"]) (rule bfs_inv_initial)
  next
    fix st :: "'a state" and curr_path depth rest
    assume "\<exists>dm. bfs_inv env all_files entry_path max_depth dm st"
      and q: "queue st = (curr_path, depth) # rest"
      and s: "curr_path \<in> visited st \<or> depth > max_depth"
    then obtain dm where "bfs_inv env all_files entry_path max_depth dm st" by blast
    from bfs_inv_skip [OF this q s]
    show "\<exists>dm. bfs_inv env all_files entry_path max_depth dm (st\<lparr>queue := rest\<rparr>)"
      by - (rule exI, assumption)
  next
    fix st :: "'a state" and curr_path depth rest raw
    assume "\<exists>dm. bfs_inv env all_files entry_path max_depth dm st"
      and q: "queue st = (curr_path, depth) # rest"
      and nv: "curr_path \<notin> visited st"
      and r: "read_file env curr_path = Some raw"
    then obtain dm where "bfs_inv env all_files entry_path max_depth dm st" by blast
    from bfs_inv_visit [OF this q nv r]
    show "\<exists>dm. bfs_inv env all_files entry_path max_depth dm
        (visit env all_files entry_path curr_path depth raw (st\<lparr>queue := rest\<rparr>))"
      by - (rule exI, assumption)
  qed
  then show ?thesis by blast
qed

lemma level_visited:
  assumes inv: "bfs_inv env all_files entry_path max_depth dm st" and e: "queue st = []"
  shows "p \<in> set (level env all_files entry_path n) \<Longrightarrow> int n \<le> max_depth \<Longrightarrow>
         p \<in> visited st \<and> dm p \<le> int n"
proof (induction n arbitrary: p)
  case 0
  with inv e show ?case by (auto simp: bfs_inv_def)
next
  case (Suc n)
  from Suc.prems(1) obtain a where a: "a \<in> set (level env all_files entry_path n)"
    and p: "p \<in> set (includes_of env all_files a)"
    by auto
  from Suc.IH [OF a] Suc.prems(2) have av: "a \<in> visited st" "dm a \<le> int n" by auto
  with inv p have "(p \<in> visited st \<and> dm p \<le> dm a + 1) \<or> (p, dm a + 1) \<in> set (queue st)
           \<or> dm a + 1 > max_depth"
    unfolding bfs_inv_def by blast
  with e av Suc.prems(2) show ?case by auto
qed


lemma distinct_count_list_one: "distinct xs \<Longrightarrow> p \<in> set xs \<Longrightarrow> count_list xs p = 1"
  by (induction xs) (auto simp: count_list_0_iff)

text \<open>
  Claim C6, as amended.  In a run of \<open>main\<close> no path is opened twice, and the discovered
  files are the files opened, in the order in which they were opened: each path appears at
  most once among them, however many files include it.  A file at the end of an include
  chain from the entry file of a length up to \<open>max_depth\<close> appears exactly once; so does
  the common file of a diamond that lies within the depth limit.
\<close>

theorem each_file_visited_once:
  assumes "main env all_files entry_path max_depth = Inr r"
  shows "distinct (files_read r) \<and> map fst (discovered r) = files_read r
         \<and> count_list (files_read r) p \<le> 1 \<and> count_list (map fst (discovered r)) p \<le> 1
         \<and> (p \<in> set (level env all_files entry_path n) \<and> int n \<le> max_depth \<longrightarrow>
               count_list (files_read r) p = 1 \<and> count_list (map fst (discovered r)) p = 1)"
proof -
  from assms obtain st where st: "traverse env all_files entry_path max_depth (initial entry_path) = Inr st"
    and r: "discovered r = processed_files st" "files_read r = opened st"
    by (auto simp: main_def Let_def split: sum.splits)
  from traverse_visited_once [OF st] have d: "distinct (opened st)"
    and m: "map fst (processed_files st) = opened st"
    and v: "set (opened st) = visited st"
    by (auto simp: visited_once_def)
  have "count_list (opened st) p \<le> 1"
    using d by (rule distinct_count_list)
  moreover have "count_list (opened st) p = 1"
    if "p \<in> set (level env all_files entry_path n)" "int n \<le> max_depth"
  proof -
    from traverse_bfs_inv [OF st] obtain dm
      where "bfs_inv env all_files entry_path max_depth dm st" "queue st = []" by blast
    from level_visited [OF this that] v have "p \<in> set (opened st)" by simp
    with d show ?thesis by (rule distinct_count_list_one)
  qed
  ultimately show ?thesis
    using d m r by simp
qed

text \<open>
  A diamond: \<open>a.c\<close> includes \<open>b.h\<close> and \<open>c.h\<close>, and both include \<open>d.h\<close>.
\<close>

definition diamond :: "(string \<times> string) list" where
  "diamond =
     [(''a.c'', ''#include \"b.h\"'' @ [CHR 0x0A] @ ''#include \"c.h\"''),
      (''b.h'', ''#include \"d.h\"''),
      (''c.h'', ''#include \"d.h\"''),
      (''d.h'', ''int d;'')]"

theorem each_file_visited_once_witness:
  "\<exists>r. main (example_env diamond) (map fst diamond) ''a.c'' 3 = Inr r
       \<and> includes_of (example_env diamond) (map fst diamond) ''a.c'' = [''b.h'', ''c.h'']
       \<and> includes_of (example_env diamond) (map fst diamond) ''b.h'' = [''d.h'']
       \<and> includes_of (example_env diamond) (map fst diamond) ''c.h'' = [''d.h'']
       \<and> files_read r = [''a.c'', ''b.h'', ''c.h'', ''d.h'']
       \<and> count_list (map fst (discovered r)) ''d.h'' = 1"
proof -
  have "map_sum id files_read (main (example_env diamond) (map fst diamond) ''a.c'' 3)
     = Inr [''a.c'', ''b.h'', ''c.h'', ''d.h'']"
    by code_simp
  then obtain r where r: "main (example_env diamond) (map fst diamond) ''a.c'' 3 = Inr r"
    and f: "files_read r = [''a.c'', ''b.h'', ''c.h'', ''d.h'']"
    by (cases "main (example_env diamond) (map fst diamond) ''a.c'' 3") auto
  have i: "includes_of (example_env diamond) (map fst diamond) ''a.c'' = [''b.h'', ''c.h'']"
    "includes_of (example_env diamond) (map fst diamond) ''b.h'' = [''d.h'']"
    "includes_of (example_env diamond) (map fst diamond) ''c.h'' = [''d.h'']"
    by code_simp+
  then have "''d.h'' \<in> set (level (example_env diamond) (map fst diamond) ''a.c'' 2)"
    by (simp add: numeral_2_eq_2)
  with each_file_visited_once [OF r, of "''d.h''" 2] f r i show ?thesis
    by simp
qed

text \<open>
  Claim C6 as stated fails at the same diamond with \<open>max_depth = 1\<close>: both files that include
  \<open>d.h\<close> are discovered, at depth 1, and \<open>d.h\<close> itself, at depth 2, is not.
\<close>

theorem diamond_beyond_depth_counterexample:
  "\<exists>r. main (example_env diamond) (map fst diamond) ''a.c'' 1 = Inr r
       \<and> includes_of (example_env diamond) (map fst diamond) ''b.h'' = [''d.h'']
       \<and> includes_of (example_env diamond) (map fst diamond) ''c.h'' = [''d.h'']
       \<and> map fst (discovered r) = [''a.c'', ''b.h'', ''c.h'']
       \<and> count_list (map fst (discovered r)) ''d.h'' = 0"
proof -
  have "map_sum id (map fst \<circ> discovered) (main (example_env diamond) (map fst diamond) ''a.c'' 1)
     = Inr [''a.c'', ''b.h'', ''c.h'']"
    by code_simp
  then obtain r where r: "main (example_env diamond) (map fst diamond) ''a.c'' 1 = Inr r"
    and f: "map fst (discovered r) = [''a.c'', ''b.h'', ''c.h'']"
    by (cases "main (example_env diamond) (map fst diamond) ''a.c'' 1") auto
  have i: "includes_of (example_env diamond) (map fst diamond) ''b.h'' = [''d.h'']"
    "includes_of (example_env diamond) (map fst diamond) ''c.h'' = [''d.h'']"
    by code_simp+
  with r f show ?thesis by simp
qed

section \<open>The depth limit\<close>

lemma traverse_depth_zero:
  "traverse env all_files entry_path 0 (initial entry_path) =
     (case read_file env entry_path of
        None \<Rightarrow> Inl OpenError
      | Some raw \<Rightarrow>
          Inr \<lparr>processed_files = [(entry_path, (get_blocks raw)\<lparr>is_entry := True\<rparr>)],
               used_symbols = find_usages raw,
               queue = [],
               visited = {entry_path},
               opened = [entry_path]\<rparr>)"
proof (cases "read_file env entry_path")
  case None
  have "traverse env all_files entry_path 0 (initial entry_path) = Inl OpenError"
    by (rule traverse_open_error [where rest = "[]" and depth = 0 and curr_path = entry_path])
       (simp_all add: initial_def None)
  with None show ?thesis by simp
next
  case (Some raw)
  let ?st = "visit env all_files entry_path entry_path 0 raw ((initial entry_path)\<lparr>queue := []\<rparr>)"
  have "traverse env all_files entry_path 0 (initial entry_path)
        = traverse env all_files entry_path 0 ?st"
    by (rule traverse_visit) (simp_all add: initial_def Some)
  also have "\<dots> = Inr (?st\<lparr>queue := []\<rparr>)"
    by (rule traverse_skip_all) (auto simp: visit_fields initial_def)
  also have "?st\<lparr>queue := []\<rparr>
        = \<lparr>processed_files = [(entry_path, (get_blocks raw)\<lparr>is_entry := True\<rparr>)],
               used_symbols = find_usages raw,
               queue = [],
               visited = {entry_path},
               opened = [entry_path]\<rparr>"
    using visit_processed [of entry_path "(initial entry_path)\<lparr>queue := []\<rparr>" env all_files entry_path 0 raw]
    by (simp add: visit_fields initial_def entry_blocks_def)
  finally show ?thesis using Some by simp
qed

text \<open>
  Claim C5.  A pair taken from the queue with a depth above \<open>max_depth\<close> only leaves the
  queue: the traversal goes on from the same state without it, so nothing is read or
  extracted for it and nothing is enqueued.  With \<open>max_depth = 0\<close> the run opens the entry
  file only, discovers it alone, and its symbols come from the entry file alone, whatever
  the entry file includes.
\<close>

theorem depth_limit:
  "(queue st = (curr_path, depth) # rest \<and> depth > max_depth \<longrightarrow>
      traverse env all_files entry_path max_depth st
        = traverse env all_files entry_path max_depth (st\<lparr>queue := rest\<rparr>))
   \<and> main env all_files entry_path 0 =
       (case read_file env entry_path of
          None \<Rightarrow> Inl OpenError
        | Some raw \<Rightarrow>
            Inr \<lparr>discovered = [(entry_path, (get_blocks raw)\<lparr>is_entry := True\<rparr>)],
                 symbols = closure [(entry_path, (get_blocks raw)\<lparr>is_entry := True\<rparr>)]
                             (find_usages raw),
                 files_read = [entry_path],
                 written = export env
                             (closure [(entry_path, (get_blocks raw)\<lparr>is_entry := True\<rparr>)]
                                (find_usages raw))
                             [(entry_path, (get_blocks raw)\<lparr>is_entry := True\<rparr>)]\<rparr>)"
proof -
  have "main env all_files entry_path 0 =
       (case read_file env entry_path of
          None \<Rightarrow> Inl OpenError
        | Some raw \<Rightarrow>
            Inr \<lparr>discovered = [(entry_path, (get_blocks raw)\<lparr>is_entry := True\<rparr>)],
                 symbols = closure [(entry_path, (get_blocks raw)\<lparr>is_entry := True\<rparr>)]
                             (find_usages raw),
                 files_read = [entry_path],
                 written = export env
                             (closure [(entry_path, (get_blocks raw)\<lparr>is_entry := True\<rparr>)]
                                (find_usages raw))
                             [(entry_path, (get_blocks raw)\<lparr>is_entry := True\<rparr>)]\<rparr>)"
    by (simp add: main_def traverse_depth_zero Let_def split: option.splits)
  then show ?thesis
    using traverse_skip [of st curr_path depth rest max_depth env all_files entry_path]
    by blast
qed

text \<open>An include chain of length two: \<open>a.c\<close> includes \<open>b.h\<close>, which includes \<open>c.h\<close>.\<close>

definition chain :: "(string \<times> string) list" where
  "chain =
     [(''a.c'', ''#include \"b.h\"''),
      (''b.h'', ''#include \"c.h\"''),
      (''c.h'', ''int c;'')]"

theorem depth_limit_witness:
  "map_sum id files_read (main (example_env chain) (map fst chain) ''a.c'' 0) = Inr [''a.c'']
   \<and> map_sum id (map fst \<circ> discovered) (main (example_env chain) (map fst chain) ''a.c'' 0)
       = Inr [''a.c'']
   \<and> traverse (example_env chain) (map fst chain) ''a.c'' 0
        \<lparr>processed_files = [], used_symbols = {||}, queue = [(''b.h'', 1)],
         visited = {''a.c''}, opened = [''a.c'']\<rparr>
      = Inr \<lparr>processed_files = [], used_symbols = {||}, queue = [],
             visited = {''a.c''}, opened = [''a.c'']\<rparr>"
  using depth_limit [of "\<lparr>processed_files = [], used_symbols = {||}, queue = [(''b.h'', 1)],
         visited = {''a.c''}, opened = [''a.c'']\<rparr>" "''b.h''" 1 "[]" 0
         "example_env chain" "map fst chain" "''a.c''"]
  by (simp add: traverse_done example_env_def chain_def)

section \<open>The symbol closure\<close>

lemma closure_pass_measure:
  assumes "fcard used < fcard (closure_pass processed used)"
  shows "card (fset (body_symbols processed) - fset (closure_pass processed used))
         < card (fset (body_symbols processed) - fset used)"
proof -
  let ?used' = "closure_pass processed used"
  have lo: "used |\<subseteq>| ?used'" by (rule closure_pass_lower)
  have hi: "?used' |\<subseteq>| used |\<union>| body_symbols processed" by (rule closure_pass_upper)
  have "?used' \<noteq> used" using assms by auto
  then obtain x where "x |\<in>| ?used'" "x |\<notin>| used"
    using lo by auto
  then have "fset (body_symbols processed) - fset ?used' \<subset> fset (body_symbols processed) - fset used"
    using lo hi by auto
  then show ?thesis
    by (intro psubset_card_mono) auto
qed

lemma closure_pass_fixed:
  assumes "\<not> fcard used < fcard (closure_pass processed used)"
  shows "closure_pass processed used = used"
proof -
  have "used |\<subseteq>| closure_pass processed used" by (rule closure_pass_lower)
  moreover have "fcard (closure_pass processed used) \<le> fcard used" using assms by simp
  ultimately show ?thesis
    by (metis fcard_seteq)
qed

lemma closure_iterates:
  "\<exists>n. 0 < n \<and> n \<le> Suc (card (fset (body_symbols processed) - fset used))
       \<and> closure processed used = (closure_pass processed ^^ n) used
       \<and> closure_pass processed (closure processed used) = closure processed used"
proof (induction processed used rule: closure.induct)
  case (1 processed used)
  let ?used' = "closure_pass processed used"
  show ?case
  proof (cases "fcard used < fcard ?used'")
    case True
    from "1.IH" [OF refl refl True] obtain n where n: "0 < n"
      "n \<le> Suc (card (fset (body_symbols processed) - fset ?used'))"
      "closure processed ?used' = (closure_pass processed ^^ n) ?used'"
      "closure_pass processed (closure processed ?used') = closure processed ?used'"
      by blast
    have c: "closure processed used = closure processed ?used'"
      using True by (subst closure.simps) (simp add: Let_def)
    have "(closure_pass processed ^^ n) ?used' = (closure_pass processed ^^ Suc n) used"
      by (simp add: funpow_swap1)
    with n c closure_pass_measure [OF True] show ?thesis
      by (intro exI [of _ "Suc n"]) auto
  next
    case False
    have c: "closure processed used = ?used'"
      using False by (subst closure.simps) (simp add: Let_def)
    with closure_pass_fixed [OF False] show ?thesis
      by (intro exI [of _ 1]) auto
  qed
qed

text \<open>
  Claim C2.  A pass of the symbol-resolution loop never loses a member of the used-symbol
  set and never makes it smaller.  The loop ends: its result is reached after a number of
  passes that is at least one and at most one more than the number of identifiers of the
  function bodies that are not yet in the set, and a further pass does not change it.
\<close>

theorem closure_grows_and_terminates:
  "used |\<subseteq>| closure_pass processed used
   \<and> fcard used \<le> fcard (closure_pass processed used)
   \<and> (\<exists>n. 0 < n \<and> n \<le> Suc (fcard (body_symbols processed |-| used))
          \<and> closure processed used = (closure_pass processed ^^ n) used)
   \<and> closure_pass processed (closure processed used) = closure processed used"
proof -
  have "used |\<subseteq>| closure_pass processed used" by (rule closure_pass_lower)
  moreover from this have "fcard used \<le> fcard (closure_pass processed used)"
    by (rule fcard_mono)
  moreover have "fcard (body_symbols processed |-| used)
                 = card (fset (body_symbols processed) - fset used)"
    by (simp add: fcard.rep_eq)
  ultimately show ?thesis
    using closure_iterates [of processed used] by auto
qed


text \<open>Two functions in an order that takes the loop three passes.\<close>

theorem closure_grows_and_terminates_witness:
  "closure [(''a.c'', \<lparr>headers = [], types = [],
                        functions_map = [(''g'', ''int g() { h(); }''), (''f'', ''int f() { g(); }'')],
                        defines_list = [], is_entry = False\<rparr>)]
           (fset_of_list [''f''])
   = fset_of_list [''f'', ''int'', ''g'', ''h'']"
proof -
  let ?p = "[(''a.c'', \<lparr>headers = [], types = [],
                        functions_map = [(''g'', ''int g() { h(); }''), (''f'', ''int f() { g(); }'')],
                        defines_list = [], is_entry = False\<rparr>)]"
  have 1: "closure_pass ?p (fset_of_list [''f'']) = fset_of_list [''f'', ''int'', ''g'']"
    by code_simp
  have 2: "closure_pass ?p (fset_of_list [''f'', ''int'', ''g'']) = fset_of_list [''f'', ''int'', ''g'', ''h'']"
    by code_simp
  have 3: "closure_pass ?p (fset_of_list [''f'', ''int'', ''g'', ''h'']) = fset_of_list [''f'', ''int'', ''g'', ''h'']"
    by code_simp
  have c: "fcard (fset_of_list [''f'']) < fcard (fset_of_list [''f'', ''int'', ''g''])"
    "fcard (fset_of_list [''f'', ''int'', ''g'']) < fcard (fset_of_list [''f'', ''int'', ''g'', ''h''])"
    by code_simp+
  have "closure ?p (fset_of_list [''f'']) = closure ?p (fset_of_list [''f'', ''int'', ''g''])"
    by (subst closure.simps) (simp only: Let_def 1 c if_True)
  also have "\<dots> = closure ?p (fset_of_list [''f'', ''int'', ''g'', ''h''])"
    by (subst closure.simps) (simp only: Let_def 2 c if_True)
  also have "\<dots> = fset_of_list [''f'', ''int'', ''g'', ''h'']"
    by (subst closure.simps) (simp only: Let_def 3 less_irrefl if_False)
  finally show ?thesis
    using closure_grows_and_terminates [of "fset_of_list [''f'']" ?p] by simp
qed

section \<open>The export\<close>

lemma fold_out_write: "fold (\<lambda>x. out_write (f x)) xs out = out @ map f xs"
  by (induction xs arbitrary: out) (simp_all add: out_write_def)

lemma fold_out_write_if:
  "fold (\<lambda>(name, body) out. if c name then out_write (f body) out else out) fs out
     = out @ map (\<lambda>(name, body). f body) (filter (\<lambda>(name, body). c name) fs)"
  by (induction fs arbitrary: out) (auto simp: out_write_def)

text \<open>
  The section of one file as the specification describes it: the marker, every header
  line, every define line, every type span, and the bodies of the functions whose names
  \<open>keep\<close> selects, in the order of extraction.
\<close>

definition spec_section :: "'p env \<Rightarrow> (string \<Rightarrow> bool) \<Rightarrow> 'p \<Rightarrow> blocks \<Rightarrow> string list" where
  "spec_section env keep path blocks =
     [[CHR 0x0A] @ ''// --- FILE: '' @ display env path @ '' ---'' @ [CHR 0x0A]]
     @ map (\<lambda>h. h @ [CHR 0x0A]) (headers blocks)
     @ map (\<lambda>d. d @ [CHR 0x0A]) (defines_list blocks)
     @ map (\<lambda>t. clean_whitespace t @ [CHR 0x0A]) (types blocks)
     @ map (\<lambda>(name, body). clean_whitespace body @ [CHR 0x0A])
           (filter (\<lambda>(name, body). keep name) (functions_map blocks))"

lemma export_spec_section:
  "export_file env used (path, blocks) out
     = out @ spec_section env (\<lambda>name. is_entry blocks \<or> name |\<in>| used) path blocks"
  by (simp add: export_file_def spec_section_def Let_def fold_out_write fold_out_write_if out_write_def)

lemma fold_export_file:
  "fold (export_file env used) pbs out
     = out @ concat (map (\<lambda>(path, blocks).
                spec_section env (\<lambda>name. is_entry blocks \<or> name |\<in>| used) path blocks) pbs)"
  by (induction pbs arbitrary: out) (auto simp: export_spec_section)


text \<open>
  Claim C1.  What \<open>main\<close> writes is, for the discovered files in the order of their paths,
  the section of each file with all its header lines, define lines and type spans, and with
  the body of a function exactly when the file is the entry file or the name of the function
  is in the final used-symbol set.
\<close>

theorem export_selects_functions:
  assumes "main env all_files entry_path max_depth = Inr r"
  shows "written r =
           concat (map (\<lambda>(path, blocks).
                     spec_section env (\<lambda>name. path = entry_path \<or> name |\<in>| symbols r) path blocks)
                   (sort_key fst (discovered r)))"
proof -
  from assms obtain st where st: "traverse env all_files entry_path max_depth (initial entry_path) = Inr st"
    and r: "discovered r = processed_files st"
      "written r = export env (symbols r) (processed_files st)"
    by (auto simp: main_def Let_def split: sum.splits)
  from traverse_visited_once [OF st]
  have e: "list_all (\<lambda>(p, b). is_entry b = (p = entry_path)) (processed_files st)"
    by (simp add: visited_once_def)
  have eq: "map (\<lambda>(path, blocks).
              spec_section env (\<lambda>name. is_entry blocks \<or> name |\<in>| symbols r) path blocks)
            (sort_key fst (processed_files st))
        = map (\<lambda>(path, blocks).
              spec_section env (\<lambda>name. path = entry_path \<or> name |\<in>| symbols r) path blocks)
            (sort_key fst (processed_files st))"
    using e by (intro map_cong refl) (auto simp: list_all_iff)
  have "written r = concat (map (\<lambda>(path, blocks).
              spec_section env (\<lambda>name. is_entry blocks \<or> name |\<in>| symbols r) path blocks)
            (sort_key fst (processed_files st)))"
    by (simp add: r export_def fold_export_file)
  also note eq
  finally show ?thesis
    by (simp only: r(1))
qed

text \<open>
  The example of the specification: \<open>main\<close> calls \<open>helper\<close>, which an included file defines
  beside \<open>dead_code\<close>.
\<close>

definition project :: "(string \<times> string) list" where
  "project =
     [(''main.c'', ''#include \"h.h\"'' @ [CHR 0x0A] @ ''int main() { helper(); }''),
      (''h.h'', ''int helper() { return 1; }'' @ [CHR 0x0A] @ ''int dead_code() { return 2; }'')]"

theorem export_selects_functions_witness:
  "\<exists>r. main (example_env project) (map fst project) ''main.c'' 3 = Inr r
       \<and> written r =
           [[CHR 0x0A] @ ''// --- FILE: h.h ---'' @ [CHR 0x0A],
            ''int helper() { return 1; }'' @ [CHR 0x0A],
            [CHR 0x0A] @ ''// --- FILE: main.c ---'' @ [CHR 0x0A],
            ''#include \"h.h\"'' @ [CHR 0x0A],
            ''int main() { helper(); }'' @ [CHR 0x0A]]"
proof -
  have "map_sum id written (main (example_env project) (map fst project) ''main.c'' 3)
        = Inr [[CHR 0x0A] @ ''// --- FILE: h.h ---'' @ [CHR 0x0A],
            ''int helper() { return 1; }'' @ [CHR 0x0A],
            [CHR 0x0A] @ ''// --- FILE: main.c ---'' @ [CHR 0x0A],
            ''#include \"h.h\"'' @ [CHR 0x0A],
            ''int main() { helper(); }'' @ [CHR 0x0A]]"
    by code_simp
  then obtain r where r: "main (example_env project) (map fst project) ''main.c'' 3 = Inr r"
    and w: "written r = [[CHR 0x0A] @ ''// --- FILE: h.h ---'' @ [CHR 0x0A],
            ''int helper() { return 1; }'' @ [CHR 0x0A],
            [CHR 0x0A] @ ''// --- FILE: main.c ---'' @ [CHR 0x0A],
            ''#include \"h.h\"'' @ [CHR 0x0A],
            ''int main() { helper(); }'' @ [CHR 0x0A]]"
    by (cases "main (example_env project) (map fst project) ''main.c'' 3") auto
  from export_selects_functions [OF r] r w show ?thesis
    by simp
qed

end
